theory Spec2Isabelle
  imports Main "HOL-Library.Sublist"
begin

section \<open>The video auto-pause content script (src/content.js)\<close>

text \<open>
  The content script is a set of event handlers over three pieces of module state
  (\<open>userClickedPlay\<close>, \<open>observedVideos\<close>, \<open>debounceTimer\<close>) and the host page (the
  video elements, the document, the timer queue). Every handler is embedded as a
  statement: a function from the world to a completion (normal return or a thrown
  exception) and the updated world. Every method call the script makes on a host object
  is appended to the call log \<open>calls\<close>, in program order, so that "a pause call is
  issued" is the presence of \<open>PauseCall v\<close> in the log.
\<close>

subsection \<open>Values and host objects\<close>

type_synonym vid = nat
type_synonym node = nat

text \<open>A video parameter as JavaScript passes it: an element, or \<open>null\<close> / \<open>undefined\<close>.\<close>

datatype handle = Null | Undefined | Video vid

datatype jsval = Ref handle | NodeRef node | ErrorVal

text \<open>What the host's \<open>pause()\<close> and \<open>play()\<close> do when called on an element.\<close>

datatype pause_behaviour = PauseFlips | PauseNoEffect | PauseThrows

datatype play_behaviour = PlayStarts | PlayBlocked | PlayThrows

record video =
  paused :: bool
  playListenerAttached :: "string option"
  playListener :: bool
  isHTMLVideoElement :: bool
  pauseImpl :: pause_behaviour
  playImpl :: play_behaviour

text \<open>
  \<open>videosInDocument\<close> is the result of \<open>document.querySelectorAll('video')\<close>,
  \<open>closest\<close> the result of \<open>target.closest('div[data-testid="videoComponent"],
  div[data-testid="videoPlayer"]')\<close> and \<open>querySelector\<close> the result of
  \<open>container.querySelector('video')\<close>.
\<close>

record document =
  elems :: "vid \<Rightarrow> video"
  videosInDocument :: "vid list"
  closest :: "node \<Rightarrow> node option"
  querySelector :: "node \<Rightarrow> vid option"

datatype callback = InitialScan | SetupMutationObserver | DebouncedScan | IntersectionTimeout vid

record timer =
  timerId :: nat
  due :: nat
  callback :: callback

datatype call =
    ConsoleLog string "jsval list"
  | ConsoleWarn string "jsval list"
  | ConsoleError string "jsval list"
  | PauseCall vid
  | PlayCall vid
  | AddPlayListener vid
  | Observe vid
  | QuerySelectorAll
  | Closest node
  | QuerySelector node
  | SetTimeout callback nat nat
  | ClearTimeout "nat option"
  | AddBodyClickListener
  | NewIntersectionObserver
  | ObserveBodyMutations

record intersection_entry =
  target :: vid
  isIntersecting :: bool

datatype mutation_type = ChildList | Attributes | CharacterData

record mutation =
  mtype :: mutation_type
  addedNodes :: "node list"
  removedNodes :: "node list"

subsection \<open>The world\<close>

text \<open>
  \<open>userClickedPlay\<close> is a JavaScript \<open>Set\<close> (insertion ordered, no duplicates) and
  \<open>observedVideos\<close> a \<open>WeakSet\<close>; both are lists here, with \<open>Set_has\<close> and
  \<open>Set_add\<close> as the primitives. \<open>timers\<close> holds the pending timeouts in creation order,
  \<open>playPromises\<close> the promises returned by \<open>play()\<close> that have not settled, and
  \<open>uncaught\<close> counts the exceptions that left a handler and reached the page.
\<close>

record world =
  userClickedPlay :: "vid list"
  observedVideos :: "vid list"
  debounceTimer :: "nat option"
  doc :: document
  timers :: "timer list"
  nextTimerId :: nat
  now :: nat
  mutationObserverActive :: bool
  playPromises :: "vid list"
  uncaught :: nat
  calls :: "call list"

datatype completion = Normal | Throw

type_synonym stmt = "world \<Rightarrow> completion \<times> world"

fun block :: "stmt list \<Rightarrow> stmt" where
  "block [] w = (Normal, w)"
| "block (s # ss) w = (case s w of (Normal, w') \<Rightarrow> block ss w' | (Throw, w') \<Rightarrow> (Throw, w'))"

definition tryCatch :: "stmt \<Rightarrow> stmt \<Rightarrow> stmt" where
  "tryCatch body handler w = (case body w of (Normal, w') \<Rightarrow> (Normal, w') | (Throw, w') \<Rightarrow> handler w')"

fun forEach :: "('a \<Rightarrow> stmt) \<Rightarrow> 'a list \<Rightarrow> stmt" where
  "forEach f [] w = (Normal, w)"
| "forEach f (x # xs) w = (case f x w of (Normal, w') \<Rightarrow> forEach f xs w' | (Throw, w') \<Rightarrow> (Throw, w'))"

definition emit :: "call \<Rightarrow> stmt" where
  "emit c w = (Normal, w\<lparr>calls := calls w @ [c]\<rparr>)"

definition console_log :: "string \<Rightarrow> jsval list \<Rightarrow> stmt" where
  "console_log s args = emit (ConsoleLog s args)"

definition console_warn :: "string \<Rightarrow> jsval list \<Rightarrow> stmt" where
  "console_warn s args = emit (ConsoleWarn s args)"

definition console_error :: "string \<Rightarrow> jsval list \<Rightarrow> stmt" where
  "console_error s args = emit (ConsoleError s args)"

definition js_bool :: "bool \<Rightarrow> string" where
  "js_bool b = (if b then ''true'' else ''false'')"

definition digit :: "nat \<Rightarrow> char" where
  "digit d = (''0123456789'' ! d)"

fun js_nat :: "nat \<Rightarrow> string" where
  "js_nat n = (if n < 10 then [digit n] else js_nat (n div 10) @ [digit (n mod 10)])"

definition Set_has :: "vid list \<Rightarrow> vid \<Rightarrow> bool" where
  "Set_has s v = (v \<in> set s)"

definition Set_add :: "vid list \<Rightarrow> vid \<Rightarrow> vid list" where
  "Set_add s v = (if v \<in> set s then s else s @ [v])"

definition update_video :: "vid \<Rightarrow> (video \<Rightarrow> video) \<Rightarrow> world \<Rightarrow> world" where
  "update_video v f w = w\<lparr>doc := (doc w)\<lparr>elems := (elems (doc w))(v := f (elems (doc w) v))\<rparr>\<rparr>"

definition video_of :: "world \<Rightarrow> vid \<Rightarrow> video" where
  "video_of w v = elems (doc w) v"

subsection \<open>Host primitives\<close>

text \<open>
  \<open>video.pause()\<close>: the call is logged; then the host flips \<open>paused\<close>, leaves it, or
  throws. \<open>video.play()\<close>: the call is logged; the host throws, or returns a promise
  that settles later (event \<open>PlaySettled\<close>).
\<close>

definition host_pause :: "vid \<Rightarrow> stmt" where
  "host_pause v w =
     (let w1 = w\<lparr>calls := calls w @ [PauseCall v]\<rparr> in
      case pauseImpl (video_of w v) of
        PauseFlips \<Rightarrow> (Normal, update_video v (\<lambda>e. e\<lparr>paused := True\<rparr>) w1)
      | PauseNoEffect \<Rightarrow> (Normal, w1)
      | PauseThrows \<Rightarrow> (Throw, w1))"

definition host_play :: "vid \<Rightarrow> stmt" where
  "host_play v w =
     (let w1 = w\<lparr>calls := calls w @ [PlayCall v]\<rparr> in
      case playImpl (video_of w v) of
        PlayStarts \<Rightarrow>
          (Normal, update_video v (\<lambda>e. e\<lparr>paused := False\<rparr>) (w1\<lparr>playPromises := playPromises w1 @ [v]\<rparr>))
      | PlayBlocked \<Rightarrow> (Normal, w1\<lparr>playPromises := playPromises w1 @ [v]\<rparr>)
      | PlayThrows \<Rightarrow> (Throw, w1))"

definition addEventListener_play :: "vid \<Rightarrow> stmt" where
  "addEventListener_play v w =
     (Normal, update_video v (\<lambda>e. e\<lparr>playListener := True\<rparr>) (w\<lparr>calls := calls w @ [AddPlayListener v]\<rparr>))"

definition setTimeout :: "callback \<Rightarrow> nat \<Rightarrow> world \<Rightarrow> nat \<times> world" where
  "setTimeout cb delay w =
     (let i = nextTimerId w in
      (i, w\<lparr>timers := timers w @ [\<lparr>timerId = i, due = now w + delay, callback = cb\<rparr>],
            nextTimerId := Suc i,
            calls := calls w @ [SetTimeout cb delay i]\<rparr>))"

definition clearTimeout :: "nat option \<Rightarrow> stmt" where
  "clearTimeout t w =
     (Normal, w\<lparr>timers := (case t of None \<Rightarrow> timers w
                                   | Some i \<Rightarrow> filter (\<lambda>x. timerId x \<noteq> i) (timers w)),
                calls := calls w @ [ClearTimeout t]\<rparr>)"

subsection \<open>Play Interceptor: \<open>handleVideoPlay\<close>, \<open>attachPlayListenerIfNeeded\<close>\<close>

text \<open>The console messages of \<open>handleVideoPlay\<close> and \<open>attachPlayListenerIfNeeded\<close>.\<close>

definition hvp_detected :: string where
  "hvp_detected = ''[handleVideoPlay] 'play' event detected for video:''"

definition hvp_not_user :: string where
  "hvp_not_user = ''[handleVideoPlay] Play was not user-initiated. Attempting to pause.''"

definition hvp_success :: string where
  "hvp_success = ''[handleVideoPlay] SUCCESS: Paused video via play listener.''"

definition hvp_warn :: string where
  "hvp_warn = ''[handleVideoPlay] WARN: Called pause() via play listener, but video.paused is still false.''"

definition hvp_error :: string where
  "hvp_error = ''[handleVideoPlay] ERROR: Failed to pause video via play listener:''"

definition hvp_allowed :: string where
  "hvp_allowed = ''[handleVideoPlay] Play is allowed (user initiated).''"

definition apl_attaching :: string where
  "apl_attaching = ''[attachPlayListenerIfNeeded] Attaching 'play' listener to video:''"

definition handleVideoPlay :: "vid \<Rightarrow> stmt" where
  "handleVideoPlay video = block [
     console_log hvp_detected [Ref (Video video)],
     (\<lambda>w. if \<not> Set_has (userClickedPlay w) video then
             block [
               console_log hvp_not_user [],
               tryCatch
                 (block [
                    host_pause video,
                    (\<lambda>w. if paused (video_of w video)
                          then console_log hvp_success [] w
                          else console_warn hvp_warn [] w)])
                 (console_error hvp_error [ErrorVal])] w
           else console_log hvp_allowed [] w)]"

definition attachPlayListenerIfNeeded :: "handle \<Rightarrow> stmt" where
  "attachPlayListenerIfNeeded video w =
     (case video of
        Video v \<Rightarrow>
          if playListenerAttached (video_of w v) \<noteq> Some ''true'' then
            block [
              console_log apl_attaching [Ref video],
              addEventListener_play v,
              (\<lambda>w. (Normal, update_video v (\<lambda>e. e\<lparr>playListenerAttached := Some ''true''\<rparr>) w))] w
          else (Normal, w)
      | _ \<Rightarrow> (Normal, w))"

subsection \<open>Playback Guard: \<open>pauseVideoIfAppropriate\<close>\<close>

text \<open>The console messages of \<open>pauseVideoIfAppropriate\<close>, with their interpolated values.\<close>

definition pva_checking :: "string \<Rightarrow> bool \<Rightarrow> string" where
  "pva_checking context assertivePause =
     ''['' @ context @ ''] Checking video (Assertive: '' @ js_bool assertivePause @ ''):''"

definition pva_state :: "string \<Rightarrow> bool \<Rightarrow> bool \<Rightarrow> string" where
  "pva_state context isPaused isUserClicked =
     ''['' @ context @ ''] Video state: isPaused='' @ js_bool isPaused
       @ '', isUserClicked='' @ js_bool isUserClicked"

definition pva_skip_assertive :: "string \<Rightarrow> string" where
  "pva_skip_assertive context = ''['' @ context @ ''] SKIPPED Assertive Pause: User Clicked''"

definition pva_skip_normal :: "string \<Rightarrow> bool \<Rightarrow> bool \<Rightarrow> string" where
  "pva_skip_normal context isPaused isUserClicked =
     ''['' @ context @ ''] SKIPPED Normal Pause: (Paused: '' @ js_bool isPaused
       @ '', User Clicked: '' @ js_bool isUserClicked @ '')''"

definition pva_attempt :: "string \<Rightarrow> string" where
  "pva_attempt context = ''['' @ context @ ''] Attempting to pause video...''"

definition pva_success :: "string \<Rightarrow> string" where
  "pva_success context = ''['' @ context @ ''] SUCCESS: Paused video:''"

definition pva_warn :: "string \<Rightarrow> string" where
  "pva_warn context = ''['' @ context @ ''] WARN: Called pause(), but video.paused is still false.''"

definition pva_error :: "string \<Rightarrow> string" where
  "pva_error context = ''['' @ context @ ''] ERROR: Failed to pause video:''"

definition pva_null :: "string \<Rightarrow> string" where
  "pva_null context = ''['' @ context @ ''] SKIPPED Pause: Video element was null.''"

definition pauseVideoIfAppropriate :: "handle \<Rightarrow> string \<Rightarrow> bool \<Rightarrow> stmt" where
  "pauseVideoIfAppropriate video context assertivePause = block [
     attachPlayListenerIfNeeded video,
     console_log (pva_checking context assertivePause) [Ref video],
     (\<lambda>w. case video of
        Video v \<Rightarrow>
          (let isPaused = paused (video_of w v);
               isUserClicked = Set_has (userClickedPlay w) v;
               shouldPause = (if assertivePause then \<not> isUserClicked else \<not> isPaused \<and> \<not> isUserClicked)
           in block [
             console_log (pva_state context isPaused isUserClicked) [],
             (if assertivePause then
                (if isUserClicked
                 then console_log (pva_skip_assertive context) [Ref video]
                 else block [])
              else
                (if \<not> shouldPause
                 then console_log (pva_skip_normal context isPaused isUserClicked) [Ref video]
                 else block [])),
             (if shouldPause then
                tryCatch
                  (block [
                     (if \<not> isPaused \<or> assertivePause
                      then console_log (pva_attempt context) []
                      else block []),
                     host_pause v,
                     (\<lambda>w. if paused (video_of w v)
                           then console_log (pva_success context) [Ref video] w
                           else console_warn (pva_warn context) [Ref video] w)])
                  (console_error (pva_error context) [ErrorVal, Ref video])
              else block [])] w)
      | _ \<Rightarrow> console_log (pva_null context) [] w)]"

subsection \<open>Visibility Monitor: \<open>handleIntersection\<close>\<close>

definition hi_intersecting :: "bool \<Rightarrow> string" where
  "hi_intersecting b =
     ''[IntersectionObserver] Video intersecting: isIntersecting='' @ js_bool b @ '', target=''"

text \<open>The arrow function that \<open>handleIntersection\<close> applies to each entry.\<close>

definition handleIntersection_entry :: "intersection_entry \<Rightarrow> stmt" where
  "handleIntersection_entry entry w =
     (let video = target entry in
      if isIntersecting entry \<and> isHTMLVideoElement (video_of w video) then
        block [
          console_log (hi_intersecting (isIntersecting entry)) [Ref (Video video)],
          pauseVideoIfAppropriate (Video video) ''Intersection-Immediate'' True,
          (\<lambda>w. (Normal, snd (setTimeout (IntersectionTimeout video) 50 w)))] w
      else (Normal, w))"

definition handleIntersection :: "intersection_entry list \<Rightarrow> stmt" where
  "handleIntersection entries = forEach handleIntersection_entry entries"

subsection \<open>Discovery Scanner: \<open>scanAndObserveAllVideos\<close>\<close>

definition scan_start :: string where
  "scan_start = ''[scanAndObserveAllVideos] Starting global scan for videos.''"

definition scan_found :: "nat \<Rightarrow> string" where
  "scan_found n = ''[scanAndObserveAllVideos] Found '' @ js_nat n @ '' videos in the document.''"

definition scan_new :: string where
  "scan_new = ''[scanAndObserveAllVideos] Starting IntersectionObserver for new video:''"

definition scan_finished :: string where
  "scan_finished = ''[scanAndObserveAllVideos] Global scan finished.''"

text \<open>The arrow function that \<open>scanAndObserveAllVideos\<close> applies to each video.\<close>

definition scanAndObserve_video :: "vid \<Rightarrow> stmt" where
  "scanAndObserve_video video = block [
     attachPlayListenerIfNeeded (Video video),
     (\<lambda>w. if \<not> Set_has (observedVideos w) video then
             block [
               console_log scan_new [Ref (Video video)],
               emit (Observe video),
               (\<lambda>w. (Normal, w\<lparr>observedVideos := Set_add (observedVideos w) video\<rparr>)),
               pauseVideoIfAppropriate (Video video) ''Scan-InitialCheck'' False] w
           else (Normal, w))]"

definition scanAndObserveAllVideos :: stmt where
  "scanAndObserveAllVideos = block [
     console_log scan_start [],
     emit QuerySelectorAll,
     (\<lambda>w. let allVideos = videosInDocument (doc w) in
        block [
          console_log (scan_found (length allVideos)) [],
          forEach scanAndObserve_video allVideos] w),
     console_log scan_finished []]"

subsection \<open>Mutation Watcher: \<open>debouncedScanAndObserve\<close>, \<open>observeDOMChanges\<close>\<close>

definition debouncedScanAndObserve :: stmt where
  "debouncedScanAndObserve = block [
     (\<lambda>w. clearTimeout (debounceTimer w) w),
     (\<lambda>w. let (t, w') = setTimeout DebouncedScan 300 w in (Normal, w'\<lparr>debounceTimer := Some t\<rparr>))]"

text \<open>The \<open>for ... of\<close> loop of the observer callback, with its \<open>break\<close>.\<close>

fun changed :: "mutation list \<Rightarrow> bool" where
  "changed [] = False"
| "changed (m # ms) =
     (if mtype m = ChildList \<and> (length (addedNodes m) > 0 \<or> length (removedNodes m) > 0)
      then True else changed ms)"

definition mutationCallback :: "mutation list \<Rightarrow> stmt" where
  "mutationCallback mutationsList w =
     (if changed mutationsList then debouncedScanAndObserve w else (Normal, w))"

definition odc_setup :: string where
  "odc_setup = ''[observeDOMChanges] MutationObserver set up to trigger debounced scans.''"

definition observeDOMChanges :: stmt where
  "observeDOMChanges = block [
     (\<lambda>w. (Normal, w\<lparr>mutationObserverActive := True, calls := calls w @ [ObserveBodyMutations]\<rparr>)),
     console_log odc_setup []]"

subsection \<open>Click Delegator: \<open>handleBodyClick\<close>\<close>

definition hbc_click :: string where
  "hbc_click = ''[handleBodyClick] Click detected on target:''"

definition hbc_inside :: string where
  "hbc_inside = ''[handleBodyClick] Click target is inside a video container:''"

definition hbc_found :: string where
  "hbc_found = ''[handleBodyClick] Found video element:''"

definition hbc_adding :: string where
  "hbc_adding = ''[handleBodyClick] Adding video to userClickedPlay set.''"

definition hbc_already :: string where
  "hbc_already = ''[handleBodyClick] Video was already in userClickedPlay set.''"

definition hbc_attempt :: string where
  "hbc_attempt = ''[handleBodyClick] Attempting to play video...''"

definition hbc_success :: string where
  "hbc_success = ''[handleBodyClick] Play command successful for video:''"

definition hbc_error :: string where
  "hbc_error = ''[handleBodyClick] ERROR: Play command failed:''"

definition hbc_novideo :: string where
  "hbc_novideo = ''[handleBodyClick] No video element found within the container.''"

definition hbc_outside :: string where
  "hbc_outside = ''[handleBodyClick] Click was not inside a known video container.''"

definition handleBodyClick :: "node \<Rightarrow> stmt" where
  "handleBodyClick tgt = block [
     console_log hbc_click [NodeRef tgt],
     emit (Closest tgt),
     (\<lambda>w. case closest (doc w) tgt of
        Some videoContainer \<Rightarrow>
          block [
            console_log hbc_inside [NodeRef videoContainer],
            emit (QuerySelector videoContainer),
            (\<lambda>w. case querySelector (doc w) videoContainer of
               Some video \<Rightarrow>
                 block [
                   attachPlayListenerIfNeeded (Video video),
                   console_log hbc_found [Ref (Video video)],
                   (\<lambda>w. if \<not> Set_has (userClickedPlay w) video then
                           block [
                             console_log hbc_adding [],
                             (\<lambda>w. (Normal, w\<lparr>userClickedPlay := Set_add (userClickedPlay w) video\<rparr>))] w
                         else console_log hbc_already [] w),
                   console_log hbc_attempt [],
                   host_play video] w
             | None \<Rightarrow> console_log hbc_novideo [] w)] w
      | None \<Rightarrow> console_log hbc_outside [] w)]"

text \<open>The reactions \<open>.then(...)\<close> and \<open>.catch(...)\<close> on the promise returned by \<open>play()\<close>.\<close>

definition playSettled :: "vid \<Rightarrow> bool \<Rightarrow> stmt" where
  "playSettled video ok =
     (if ok then console_log hbc_success [Ref (Video video)]
      else console_error hbc_error [ErrorVal, Ref (Video video)])"

subsection \<open>Script execution and the event loop\<close>

definition SCRIPT_VERSION :: string where
  "SCRIPT_VERSION = ''v6.5-debug-play-listener''"

definition init_loaded :: string where
  "init_loaded = ''Twitter/X Video Auto-Pause script loaded ('' @ SCRIPT_VERSION @ '').''"

definition cio_creating :: string where
  "cio_creating = ''[createIntersectionObserver] Creating IntersectionObserver.''"

definition init_click :: string where
  "init_click = ''INITIALIZATION: Body click listener added.''"

definition init_scan_timeout :: string where
  "init_scan_timeout = ''INITIALIZATION: Setting timeout for initial video scan.''"

definition init_scan_run :: string where
  "init_scan_run = ''INITIALIZATION: Running initial video scan.''"

definition init_mo_timeout :: string where
  "init_mo_timeout = ''INITIALIZATION: Setting timeout for MutationObserver setup.''"

definition init_mo_run :: string where
  "init_mo_run = ''INITIALIZATION: Setting up MutationObserver.''"

definition init_complete :: string where
  "init_complete = ''INITIALIZATION: Script '' @ SCRIPT_VERSION @ '' setup complete.''"

definition deb_expired :: string where
  "deb_expired = ''[Debounce] Timer expired, running global scan.''"

fun runCallback :: "callback \<Rightarrow> stmt" where
  "runCallback InitialScan = block [
     console_log init_scan_run [],
     scanAndObserveAllVideos]"
| "runCallback SetupMutationObserver = block [
     console_log init_mo_run [],
     observeDOMChanges]"
| "runCallback DebouncedScan = block [
     console_log deb_expired [],
     scanAndObserveAllVideos]"
| "runCallback (IntersectionTimeout video) =
     pauseVideoIfAppropriate (Video video) ''Intersection-Timeout'' True"

text \<open>The top-level statements of the script, run once when the page loads it.\<close>

definition init :: "document \<Rightarrow> world" where
  "init d = snd (block [
     console_log init_loaded [],
     console_log cio_creating [],
     emit NewIntersectionObserver,
     emit AddBodyClickListener,
     console_log init_click [],
     console_log init_scan_timeout [],
     (\<lambda>w. (Normal, snd (setTimeout InitialScan 1000 w))),
     console_log init_mo_timeout [],
     (\<lambda>w. (Normal, snd (setTimeout SetupMutationObserver 1500 w))),
     console_log init_complete []]
   \<lparr>userClickedPlay = [], observedVideos = [], debounceTimer = None, doc = d,
    timers = [], nextTimerId = 1, now = 0, mutationObserverActive = False,
    playPromises = [], uncaught = 0, calls = []\<rparr>)"

text \<open>
  The host runs one handler per event. An exception that leaves a handler is reported to
  the page (\<open>uncaught\<close>); the state changes made before the throw stay.
\<close>

definition dispatch :: "stmt \<Rightarrow> world \<Rightarrow> world" where
  "dispatch h w = (case h w of (Normal, w') \<Rightarrow> w' | (Throw, w') \<Rightarrow> w'\<lparr>uncaught := Suc (uncaught w')\<rparr>)"

definition fireTimer :: "timer \<Rightarrow> world \<Rightarrow> world" where
  "fireTimer t w =
     (if t \<in> set (timers w)
      then dispatch (runCallback (callback t)) (w\<lparr>timers := remove1 t (timers w), now := max (now w) (due t)\<rparr>)
      else w)"

text \<open>
  Time passes: the timers that fall due fire in the order of their due time, timers with
  the same due time in creation order. No callback of this script sets a timer, so the
  timers due within the interval are those pending at its start.
\<close>

definition advance :: "nat \<Rightarrow> world \<Rightarrow> world" where
  "advance dt w =
     (let deadline = now w + dt;
          dueTimers = sort_key due (filter (\<lambda>t. due t \<le> deadline) (timers w))
      in (fold fireTimer dueTimers w)\<lparr>now := deadline\<rparr>)"

datatype event =
    Click node
  | Intersection "intersection_entry list"
  | Mutations "mutation list"
  | PlayEvent vid
  | PlaySettled vid bool
  | Advance nat
  | HostChange "document \<Rightarrow> document"

fun step :: "event \<Rightarrow> world \<Rightarrow> world" where
  "step (Click n) w = dispatch (handleBodyClick n) w"
| "step (Intersection entries) w = dispatch (handleIntersection entries) w"
| "step (Mutations ms) w = (if mutationObserverActive w then dispatch (mutationCallback ms) w else w)"
| "step (PlayEvent v) w = (if playListener (video_of w v) then dispatch (handleVideoPlay v) w else w)"
| "step (PlaySettled v ok) w =
     (if v \<in> set (playPromises w)
      then dispatch (playSettled v ok) (w\<lparr>playPromises := remove1 v (playPromises w)\<rparr>)
      else w)"
| "step (Advance dt) w = advance dt w"
| "step (HostChange f) w = w\<lparr>doc := f (doc w)\<rparr>"

fun run :: "event list \<Rightarrow> world \<Rightarrow> world" where
  "run [] w = w"
| "run (e # es) w = run es (step e w)"

text \<open>The calls a handler added to the log.\<close>

definition emitted :: "world \<Rightarrow> world \<Rightarrow> call list" where
  "emitted w w' = drop (length (calls w)) (calls w')"

subsection \<open>Observations on worlds and example inputs\<close>

definition is_console :: "call \<Rightarrow> bool" where
  "is_console c = (case c of ConsoleLog _ _ \<Rightarrow> True | ConsoleWarn _ _ \<Rightarrow> True | ConsoleError _ _ \<Rightarrow> True | _ \<Rightarrow> False)"

definition emits :: "(call \<Rightarrow> bool) \<Rightarrow> world \<Rightarrow> world \<Rightarrow> bool" where
  "emits A w w' = (\<exists>cs. calls w' = calls w @ cs \<and> list_all A cs)"

definition visible_video :: "world \<Rightarrow> intersection_entry \<Rightarrow> bool" where
  "visible_video w e = (isIntersecting e \<and> isHTMLVideoElement (video_of w (target e)))"

definition video0 :: video where
  "video0 = \<lparr>paused = False, playListenerAttached = None, playListener = False,
     isHTMLVideoElement = True, pauseImpl = PauseFlips, playImpl = PlayStarts\<rparr>"

definition page0 :: document where
  "page0 = \<lparr>elems = (\<lambda>_. video0), videosInDocument = [0, 1],
     closest = (\<lambda>n. if n = 5 then Some 4 else None),
     querySelector = (\<lambda>n. if n = 4 then Some 0 else None)\<rparr>"

definition world0 :: world where
  "world0 = \<lparr>userClickedPlay = [1], observedVideos = [], debounceTimer = None, doc = page0,
     timers = [], nextTimerId = 1, now = 0, mutationObserverActive = False,
     playPromises = [], uncaught = 0, calls = []\<rparr>"

fun is_pause :: "call \<Rightarrow> bool" where
  "is_pause (PauseCall _) = True"
| "is_pause _ = False"

definition hi_rel :: "world \<Rightarrow> world \<Rightarrow> bool" where
  "hi_rel w w' = (userClickedPlay w' = userClickedPlay w \<and> now w' = now w
     \<and> (\<forall>u. isHTMLVideoElement (video_of w' u) = isHTMLVideoElement (video_of w u))
     \<and> emits (\<lambda>_. True) w w' \<and> (\<exists>ts. timers w' = timers w @ ts))"

definition same_script :: "world \<Rightarrow> world \<Rightarrow> bool" where
  "same_script w w' =
     (userClickedPlay w' = userClickedPlay w \<and> debounceTimer w' = debounceTimer w
      \<and> timers w' = timers w \<and> nextTimerId w' = nextTimerId w \<and> now w' = now w
      \<and> mutationObserverActive w' = mutationObserverActive w
      \<and> playPromises w' = playPromises w \<and> uncaught w' = uncaught w
      \<and> videosInDocument (doc w') = videosInDocument (doc w)
      \<and> closest (doc w') = closest (doc w) \<and> querySelector (doc w') = querySelector (doc w)
      \<and> (\<forall>u. isHTMLVideoElement (video_of w' u) = isHTMLVideoElement (video_of w u)
             \<and> pauseImpl (video_of w' u) = pauseImpl (video_of w u)
             \<and> playImpl (video_of w' u) = playImpl (video_of w u)))"

definition no_pause_of_granted :: "world \<Rightarrow> call \<Rightarrow> bool" where
  "no_pause_of_granted w c = (case c of PauseCall u \<Rightarrow> u \<notin> set (userClickedPlay w) | _ \<Rightarrow> True)"

definition intent_step :: "world \<Rightarrow> world \<Rightarrow> bool" where
  "intent_step w w' = (prefix (userClickedPlay w) (userClickedPlay w') \<and> emits (no_pause_of_granted w) w w')"

definition clicked_video :: "world \<Rightarrow> node \<Rightarrow> vid option" where
  "clicked_video w n = (case closest (doc w) n of None \<Rightarrow> None | Some c \<Rightarrow> querySelector (doc w) c)"

definition click_pre :: "node \<Rightarrow> node \<Rightarrow> vid \<Rightarrow> world \<Rightarrow> world" where
  "click_pre n c v w =
     (let w1 = snd (attachPlayListenerIfNeeded (Video v)
                 (w\<lparr>calls := calls w @ [ConsoleLog hbc_click [NodeRef n], Closest n,
                                        ConsoleLog hbc_inside [NodeRef c], QuerySelector c]\<rparr>))
      in if v \<in> set (userClickedPlay w)
         then w1\<lparr>calls := calls w1 @ [ConsoleLog hbc_found [Ref (Video v)], ConsoleLog hbc_already [],
                                       ConsoleLog hbc_attempt []]\<rparr>
         else w1\<lparr>userClickedPlay := userClickedPlay w @ [v],
                  calls := calls w1 @ [ConsoleLog hbc_found [Ref (Video v)], ConsoleLog hbc_adding [],
                                       ConsoleLog hbc_attempt []]\<rparr>)"

definition click_miss :: "node \<Rightarrow> world \<Rightarrow> call list" where
  "click_miss n w =
     (case closest (doc w) n of
        None \<Rightarrow> [ConsoleLog hbc_click [NodeRef n], Closest n, ConsoleLog hbc_outside []]
      | Some c \<Rightarrow> [ConsoleLog hbc_click [NodeRef n], Closest n, ConsoleLog hbc_inside [NodeRef c],
                   QuerySelector c, ConsoleLog hbc_novideo []])"

definition videoT :: video where
  "videoT = \<lparr>paused = False, playListenerAttached = None, playListener = False,
     isHTMLVideoElement = True, pauseImpl = PauseThrows, playImpl = PlayThrows\<rparr>"

definition pageT :: document where
  "pageT = \<lparr>elems = (\<lambda>_. videoT), videosInDocument = [0, 1],
     closest = (\<lambda>n. if n = 5 then Some 4 else None),
     querySelector = (\<lambda>n. if n = 4 then Some 0 else None)\<rparr>"

definition worldT :: world where
  "worldT = \<lparr>userClickedPlay = [], observedVideos = [], debounceTimer = None, doc = pageT,
     timers = [], nextTimerId = 1, now = 0, mutationObserverActive = False,
     playPromises = [], uncaught = 0, calls = []\<rparr>"

definition conservative_check :: "vid \<Rightarrow> call" where
  "conservative_check v = ConsoleLog (pva_checking ''Scan-InitialCheck'' False) [Ref (Video v)]"

definition obs_quiet :: "vid \<Rightarrow> world \<Rightarrow> world \<Rightarrow> bool" where
  "obs_quiet v w w' =
     (observedVideos w' = observedVideos w
      \<and> emits (\<lambda>c. c \<noteq> conservative_check v \<and> c \<noteq> Observe v) w w')"

definition observed_once :: "vid \<Rightarrow> world \<Rightarrow> bool" where
  "observed_once v w =
     (count_list (calls w) (Observe v) \<le> (if v \<in> set (observedVideos w) then 1 else 0)
      \<and> count_list (calls w) (conservative_check v) \<le> (if v \<in> set (observedVideos w) then 1 else 0))"

definition pending_scans :: "world \<Rightarrow> timer list" where
  "pending_scans w = filter (\<lambda>t. callback t = DebouncedScan) (timers w)"

definition scans :: "world \<Rightarrow> nat" where
  "scans w = count_list (calls w) QuerySelectorAll"

definition deb_inv :: "world \<Rightarrow> bool" where
  "deb_inv w = (length (pending_scans w) \<le> 1
     \<and> list_all (\<lambda>t. debounceTimer w = Some (timerId t)) (pending_scans w))"

definition started :: "world \<Rightarrow> bool" where
  "started w = list_all (\<lambda>t. callback t \<noteq> InitialScan) (timers w)"

fun triggers :: "event \<Rightarrow> bool" where
  "triggers (Mutations ms) = changed ms"
| "triggers _ = False"

fun elapsed :: "event list \<Rightarrow> nat" where
  "elapsed [] = 0"
| "elapsed (Advance dt # es) = dt + elapsed es"
| "elapsed (_ # es) = elapsed es"

fun burst :: "(mutation list \<times> event list) list \<Rightarrow> event list" where
  "burst [] = []"
| "burst ((ms, seg) # bs) = Mutations ms # seg @ burst bs"

definition fresh :: "world \<Rightarrow> bool" where
  "fresh w = list_all (\<lambda>t. now w < due t) (pending_scans w)"

definition added :: "mutation list" where
  "added = [\<lparr>mtype = Attributes, addedNodes = [], removedNodes = []\<rparr>,
            \<lparr>mtype = ChildList, addedNodes = [7], removedNodes = []\<rparr>]"

definition loaded :: world where
  "loaded = run [Advance 1500] (init page0)"

section \<open>Lemmas about the handlers\<close>

lemma video_of_simps [simp]:
  "video_of (w\<lparr>calls := c\<rparr>) = video_of w"
  "video_of (w\<lparr>timers := t\<rparr>) = video_of w"
  "video_of (w\<lparr>nextTimerId := n\<rparr>) = video_of w"
  "video_of (w\<lparr>now := m\<rparr>) = video_of w"
  "video_of (w\<lparr>userClickedPlay := s\<rparr>) = video_of w"
  "video_of (w\<lparr>observedVideos := s\<rparr>) = video_of w"
  "video_of (w\<lparr>debounceTimer := d\<rparr>) = video_of w"
  "video_of (w\<lparr>mutationObserverActive := b\<rparr>) = video_of w"
  "video_of (w\<lparr>playPromises := p\<rparr>) = video_of w"
  "video_of (w\<lparr>uncaught := k\<rparr>) = video_of w"
  by (simp_all add: video_of_def fun_eq_iff)

lemma video_of_update_video [simp]:
  "video_of (update_video v f w) u = (if u = v then f (video_of w v) else video_of w u)"
  by (simp add: video_of_def update_video_def)

lemma update_video_fields [simp]:
  "userClickedPlay (update_video v f w) = userClickedPlay w"
  "observedVideos (update_video v f w) = observedVideos w"
  "debounceTimer (update_video v f w) = debounceTimer w"
  "timers (update_video v f w) = timers w"
  "nextTimerId (update_video v f w) = nextTimerId w"
  "now (update_video v f w) = now w"
  "mutationObserverActive (update_video v f w) = mutationObserverActive w"
  "playPromises (update_video v f w) = playPromises w"
  "uncaught (update_video v f w) = uncaught w"
  "calls (update_video v f w) = calls w"
  "videosInDocument (doc (update_video v f w)) = videosInDocument (doc w)"
  "closest (doc (update_video v f w)) = closest (doc w)"
  "querySelector (doc (update_video v f w)) = querySelector (doc w)"
  by (simp_all add: update_video_def)

lemmas prim_defs = emit_def console_log_def console_warn_def console_error_def host_pause_def
  host_play_def addEventListener_play_def tryCatch_def Set_has_def Set_add_def Let_def

lemmas pva_defs = pauseVideoIfAppropriate_def attachPlayListenerIfNeeded_def prim_defs Let_def

lemma emits_refl: "emits A w w"
  by (simp add: emits_def)

lemma emits_trans: "emits A w w1 \<Longrightarrow> emits A w1 w2 \<Longrightarrow> emits A w w2"
  by (auto simp: emits_def)

lemma emits_mono: "emits A w w' \<Longrightarrow> (\<And>c. A c \<Longrightarrow> B c) \<Longrightarrow> emits B w w'"
  by (auto simp: emits_def list_all_iff)

lemma emits_emitted: "emits A w w' \<Longrightarrow> calls w' = calls w @ emitted w w'"
  by (auto simp: emits_def emitted_def)

lemma emits_count: "emits A w w' \<Longrightarrow> \<not> A c \<Longrightarrow> count_list (calls w') c = count_list (calls w) c"
  by (auto simp: emits_def list_all_iff count_list_0_iff)

lemma emits_notin: "emits A w w' \<Longrightarrow> \<not> A c \<Longrightarrow> c \<notin> set (emitted w w')"
  by (auto simp: emits_def emitted_def list_all_iff)

subsection \<open>attachPlayListenerIfNeeded\<close>

lemma attach_Normal [simp]: "fst (attachPlayListenerIfNeeded h w) = Normal"
  by (cases h) (auto simp: pva_defs)

lemma attach_frame [simp]:
  "userClickedPlay (snd (attachPlayListenerIfNeeded h w)) = userClickedPlay w"
  "observedVideos (snd (attachPlayListenerIfNeeded h w)) = observedVideos w"
  "debounceTimer (snd (attachPlayListenerIfNeeded h w)) = debounceTimer w"
  "timers (snd (attachPlayListenerIfNeeded h w)) = timers w"
  "nextTimerId (snd (attachPlayListenerIfNeeded h w)) = nextTimerId w"
  "now (snd (attachPlayListenerIfNeeded h w)) = now w"
  "mutationObserverActive (snd (attachPlayListenerIfNeeded h w)) = mutationObserverActive w"
  "playPromises (snd (attachPlayListenerIfNeeded h w)) = playPromises w"
  "uncaught (snd (attachPlayListenerIfNeeded h w)) = uncaught w"
  "videosInDocument (doc (snd (attachPlayListenerIfNeeded h w))) = videosInDocument (doc w)"
  "closest (doc (snd (attachPlayListenerIfNeeded h w))) = closest (doc w)"
  "querySelector (doc (snd (attachPlayListenerIfNeeded h w))) = querySelector (doc w)"
  by (cases h; auto simp: pva_defs)+

lemma attach_video [simp]:
  "paused (video_of (snd (attachPlayListenerIfNeeded h w)) u) = paused (video_of w u)"
  "isHTMLVideoElement (video_of (snd (attachPlayListenerIfNeeded h w)) u) = isHTMLVideoElement (video_of w u)"
  "pauseImpl (video_of (snd (attachPlayListenerIfNeeded h w)) u) = pauseImpl (video_of w u)"
  "playImpl (video_of (snd (attachPlayListenerIfNeeded h w)) u) = playImpl (video_of w u)"
  by (cases h; auto simp: pva_defs)+

lemma attach_emits:
  "emits (\<lambda>c. is_console c \<or> (\<exists>u. h = Video u \<and> c = AddPlayListener u)) w (snd (attachPlayListenerIfNeeded h w))"
  by (cases h) (auto simp: pva_defs emits_def is_console_def)

subsection \<open>pauseVideoIfAppropriate\<close>

lemma pva_Normal [simp]: "fst (pauseVideoIfAppropriate h ctx a w) = Normal"
  by (cases h) (auto simp: pva_defs split: pause_behaviour.splits)

lemma pva_frame [simp]:
  "userClickedPlay (snd (pauseVideoIfAppropriate h ctx a w)) = userClickedPlay w"
  "observedVideos (snd (pauseVideoIfAppropriate h ctx a w)) = observedVideos w"
  "debounceTimer (snd (pauseVideoIfAppropriate h ctx a w)) = debounceTimer w"
  "timers (snd (pauseVideoIfAppropriate h ctx a w)) = timers w"
  "nextTimerId (snd (pauseVideoIfAppropriate h ctx a w)) = nextTimerId w"
  "now (snd (pauseVideoIfAppropriate h ctx a w)) = now w"
  "mutationObserverActive (snd (pauseVideoIfAppropriate h ctx a w)) = mutationObserverActive w"
  "playPromises (snd (pauseVideoIfAppropriate h ctx a w)) = playPromises w"
  "uncaught (snd (pauseVideoIfAppropriate h ctx a w)) = uncaught w"
  "videosInDocument (doc (snd (pauseVideoIfAppropriate h ctx a w))) = videosInDocument (doc w)"
  "closest (doc (snd (pauseVideoIfAppropriate h ctx a w))) = closest (doc w)"
  "querySelector (doc (snd (pauseVideoIfAppropriate h ctx a w))) = querySelector (doc w)"
  by (cases h; auto simp: pva_defs split: pause_behaviour.splits)+

lemma pva_video [simp]:
  "isHTMLVideoElement (video_of (snd (pauseVideoIfAppropriate h ctx a w)) u) = isHTMLVideoElement (video_of w u)"
  "pauseImpl (video_of (snd (pauseVideoIfAppropriate h ctx a w)) u) = pauseImpl (video_of w u)"
  "playImpl (video_of (snd (pauseVideoIfAppropriate h ctx a w)) u) = playImpl (video_of w u)"
  by (cases h; auto simp: pva_defs split: pause_behaviour.splits)+

lemma pva_emits:
  "emits (\<lambda>c. is_console c \<or> (\<exists>u. h = Video u \<and> (c = AddPlayListener u \<or>
             (c = PauseCall u \<and> u \<notin> set (userClickedPlay w) \<and> (a \<or> \<not> paused (video_of w u))))))
     w (snd (pauseVideoIfAppropriate h ctx a w))"
  by (cases h) (auto simp: pva_defs emits_def is_console_def split: pause_behaviour.splits)

lemma pva_pauses:
  "PauseCall v \<in> set (emitted w (snd (pauseVideoIfAppropriate (Video v) ctx a w)))
     \<longleftrightarrow> v \<notin> set (userClickedPlay w) \<and> (a \<or> \<not> paused (video_of w v))"
  by (auto simp: pva_defs emitted_def split: pause_behaviour.splits)

lemma emitted_eqI: "calls w' = calls w @ xs \<Longrightarrow> emitted w w' = xs"
  by (simp add: emitted_def)

lemma emitted_self [simp]: "emitted w w = []"
  by (simp add: emitted_def)

lemma emitted_trans:
  "emits A w w1 \<Longrightarrow> emits B w1 w2 \<Longrightarrow> emitted w w2 = emitted w w1 @ emitted w1 w2"
  by (auto simp: emits_def emitted_def)

lemma pva_eq: "pauseVideoIfAppropriate h ctx a w = (Normal, snd (pauseVideoIfAppropriate h ctx a w))"
  by (simp add: prod_eq_iff)

lemma pva_calls:
  "calls (snd (pauseVideoIfAppropriate h ctx a w)) = calls w @ emitted w (snd (pauseVideoIfAppropriate h ctx a w))"
  by (rule emits_emitted [OF pva_emits])

lemma attach_eq: "attachPlayListenerIfNeeded h w = (Normal, snd (attachPlayListenerIfNeeded h w))"
  by (simp add: prod_eq_iff)

lemma attach_calls:
  "calls (snd (attachPlayListenerIfNeeded h w)) = calls w @ emitted w (snd (attachPlayListenerIfNeeded h w))"
  by (rule emits_emitted [OF attach_emits])

subsection \<open>Loops and blocks\<close>

lemma forEach_Normal: "(\<And>x w. fst (f x w) = Normal) \<Longrightarrow> fst (forEach f xs w) = Normal"
proof (induction xs arbitrary: w)
  case Nil
  show ?case by simp
next
  case (Cons x xs)
  have "fst (f x w) = Normal" by (rule Cons.prems)
  then have "forEach f (x # xs) w = forEach f xs (snd (f x w))"
    by (cases "f x w") simp
  then show ?case using Cons.IH Cons.prems by simp
qed

lemma forEach_Cons_Normal:
  "fst (f x w) = Normal \<Longrightarrow> forEach f (x # xs) w = forEach f xs (snd (f x w))"
  by (cases "f x w") simp

lemma forEach_invariant:
  assumes "P w" and "\<And>x w. x \<in> set xs \<Longrightarrow> P w \<Longrightarrow> P (snd (f x w))"
  shows "P (snd (forEach f xs w))"
  using assms
proof (induction xs arbitrary: w)
  case Nil
  then show ?case by simp
next
  case (Cons x xs)
  have step: "P (snd (f x w))" using Cons.prems by simp
  show ?case
  proof (cases "f x w")
    case (Pair c w1)
    with step have "P w1" by simp
    show ?thesis
    proof (cases c)
      case Normal
      have "P (snd (forEach f xs w1))"
        by (rule Cons.IH [OF \<open>P w1\<close>]) (simp add: Cons.prems(2))
      with Pair Normal show ?thesis by simp
    next
      case Throw
      with Pair \<open>P w1\<close> show ?thesis by simp
    qed
  qed
qed

subsection \<open>handleVideoPlay\<close>

lemma hvp_Normal [simp]: "fst (handleVideoPlay v w) = Normal"
  by (auto simp: handleVideoPlay_def prim_defs Let_def split: pause_behaviour.splits)

lemma hvp_frame [simp]:
  "userClickedPlay (snd (handleVideoPlay v w)) = userClickedPlay w"
  "observedVideos (snd (handleVideoPlay v w)) = observedVideos w"
  "debounceTimer (snd (handleVideoPlay v w)) = debounceTimer w"
  "timers (snd (handleVideoPlay v w)) = timers w"
  "nextTimerId (snd (handleVideoPlay v w)) = nextTimerId w"
  "now (snd (handleVideoPlay v w)) = now w"
  "mutationObserverActive (snd (handleVideoPlay v w)) = mutationObserverActive w"
  "playPromises (snd (handleVideoPlay v w)) = playPromises w"
  "uncaught (snd (handleVideoPlay v w)) = uncaught w"
  by (auto simp: handleVideoPlay_def prim_defs Let_def split: pause_behaviour.splits)

lemma hvp_emits:
  "emits (\<lambda>c. is_console c \<or> (c = PauseCall v \<and> v \<notin> set (userClickedPlay w))) w (snd (handleVideoPlay v w))"
  by (auto simp: handleVideoPlay_def prim_defs Let_def emits_def is_console_def split: pause_behaviour.splits)

lemma hvp_pauses:
  "PauseCall u \<in> set (emitted w (snd (handleVideoPlay v w))) \<longleftrightarrow> u = v \<and> v \<notin> set (userClickedPlay w)"
  by (auto simp: handleVideoPlay_def prim_defs Let_def emitted_def split: pause_behaviour.splits)

subsection \<open>handleIntersection\<close>

lemma hie_Normal [simp]: "fst (handleIntersection_entry e w) = Normal"
  by (simp add: handleIntersection_entry_def Let_def console_log_def emit_def case_prod_beta)

lemma hie_skip: "\<not> visible_video w e \<Longrightarrow> handleIntersection_entry e w = (Normal, w)"
  by (auto simp: handleIntersection_entry_def visible_video_def Let_def)

lemma hie_frame [simp]:
  "userClickedPlay (snd (handleIntersection_entry e w)) = userClickedPlay w"
  "observedVideos (snd (handleIntersection_entry e w)) = observedVideos w"
  "debounceTimer (snd (handleIntersection_entry e w)) = debounceTimer w"
  "now (snd (handleIntersection_entry e w)) = now w"
  "mutationObserverActive (snd (handleIntersection_entry e w)) = mutationObserverActive w"
  "playPromises (snd (handleIntersection_entry e w)) = playPromises w"
  "uncaught (snd (handleIntersection_entry e w)) = uncaught w"
  "isHTMLVideoElement (video_of (snd (handleIntersection_entry e w)) u) = isHTMLVideoElement (video_of w u)"
  by (simp_all add: handleIntersection_entry_def Let_def console_log_def emit_def case_prod_beta setTimeout_def)

lemma hie_timers:
  "timers (snd (handleIntersection_entry e w)) =
     timers w @ (if visible_video w e
                 then [\<lparr>timerId = nextTimerId w, due = now w + 50, callback = IntersectionTimeout (target e)\<rparr>]
                 else [])"
  by (simp add: handleIntersection_entry_def visible_video_def Let_def console_log_def emit_def case_prod_beta setTimeout_def)

lemma hie_calls:
  "calls (snd (handleIntersection_entry e w)) =
     calls w @ (if visible_video w e
                then ConsoleLog (hi_intersecting (isIntersecting e)) [Ref (Video (target e))]
                     # emitted (w\<lparr>calls := calls w @ [ConsoleLog (hi_intersecting (isIntersecting e)) [Ref (Video (target e))]]\<rparr>)
                         (snd (pauseVideoIfAppropriate (Video (target e)) ''Intersection-Immediate'' True
                            (w\<lparr>calls := calls w @ [ConsoleLog (hi_intersecting (isIntersecting e)) [Ref (Video (target e))]]\<rparr>)))
                     @ [SetTimeout (IntersectionTimeout (target e)) 50 (nextTimerId w)]
                else [])"
  by (simp add: handleIntersection_entry_def visible_video_def Let_def console_log_def emit_def case_prod_beta setTimeout_def pva_calls)

lemmas eval_defs = pauseVideoIfAppropriate_def attachPlayListenerIfNeeded_def handleVideoPlay_def
  handleIntersection_def handleIntersection_entry_def setTimeout_def clearTimeout_def
  emit_def console_log_def console_warn_def console_error_def host_pause_def
  host_play_def addEventListener_play_def tryCatch_def Set_has_def Set_add_def Let_def
  update_video_def video_of_def emitted_def world0_def page0_def video0_def

text \<open>
  Claim C10. Enforcement called with \<open>null\<close> or \<open>undefined\<close>, in either mode, returns
  normally and leaves the world as it was: no pause call, no listener, no change of state.
  The only trace is the two \<open>console.log\<close> lines of the function; attaching the play
  listener to such a handle does nothing at all.
\<close>

theorem C10_null_handle_noop:
  "pauseVideoIfAppropriate Null ctx a w =
     (Normal, w\<lparr>calls := calls w @ [ConsoleLog (pva_checking ctx a) [Ref Null], ConsoleLog (pva_null ctx) []]\<rparr>)
   \<and> pauseVideoIfAppropriate Undefined ctx a w =
     (Normal, w\<lparr>calls := calls w @ [ConsoleLog (pva_checking ctx a) [Ref Undefined], ConsoleLog (pva_null ctx) []]\<rparr>)
   \<and> attachPlayListenerIfNeeded Null w = (Normal, w)
   \<and> attachPlayListenerIfNeeded Undefined w = (Normal, w)"
  by (simp add: pauseVideoIfAppropriate_def attachPlayListenerIfNeeded_def console_log_def emit_def)

theorem C10_null_handle_noop_witness:
  "fst (pauseVideoIfAppropriate Null ''Scan-InitialCheck'' False world0) = Normal
   \<and> [c \<leftarrow> calls (snd (pauseVideoIfAppropriate Null ''Scan-InitialCheck'' False world0)). \<not> is_console c] = []
   \<and> (snd (pauseVideoIfAppropriate Undefined ''Intersection-Timeout'' True world0))\<lparr>calls := []\<rparr> = world0"
  using C10_null_handle_noop [of "''Scan-InitialCheck''" False world0]
        C10_null_handle_noop [of "''Intersection-Timeout''" True world0]
  by (simp add: world0_def is_console_def)

text \<open>
  Claim C5. In Conservative mode (\<open>assertivePause = false\<close>) the pause calls that
  enforcement issues on a video are exactly one \<open>pause()\<close> on that video when it is
  playing and not in \<open>userClickedPlay\<close>, and none when it is paused or authorized.
\<close>

theorem C5_conservative_iff:
  "[c \<leftarrow> emitted w (snd (pauseVideoIfAppropriate (Video v) ctx False w)). is_pause c] =
     (if \<not> paused (video_of w v) \<and> \<not> Set_has (userClickedPlay w) v then [PauseCall v] else [])"
  by (auto simp: pva_defs emitted_def split: pause_behaviour.splits)

theorem C5_conservative_iff_witness:
  "\<not> paused (video_of world0 0) \<and> \<not> Set_has (userClickedPlay world0) 0
   \<and> [c \<leftarrow> emitted world0 (snd (pauseVideoIfAppropriate (Video 0) ''Scan-InitialCheck'' False world0)). is_pause c] = [PauseCall 0]
   \<and> Set_has (userClickedPlay world0) 1
   \<and> [c \<leftarrow> emitted world0 (snd (pauseVideoIfAppropriate (Video 1) ''Scan-InitialCheck'' False world0)). is_pause c] = []"
  using C5_conservative_iff [of world0 0 "''Scan-InitialCheck''"] C5_conservative_iff [of world0 1 "''Scan-InitialCheck''"]
  by (simp add: world0_def page0_def video0_def video_of_def Set_has_def)

lemma dispatch_Normal: "fst (h w) = Normal \<Longrightarrow> dispatch h w = snd (h w)"
  by (cases "h w") (simp add: dispatch_def)

lemma emitted_cong: "calls a = calls b \<Longrightarrow> emitted a w' = emitted b w'"
  by (simp add: emitted_def)

lemma hie_emitted:
  "emitted w (snd (handleIntersection_entry e w)) =
     (if visible_video w e
      then ConsoleLog (hi_intersecting (isIntersecting e)) [Ref (Video (target e))]
           # emitted (w\<lparr>calls := calls w @ [ConsoleLog (hi_intersecting (isIntersecting e)) [Ref (Video (target e))]]\<rparr>)
               (snd (pauseVideoIfAppropriate (Video (target e)) ''Intersection-Immediate'' True
                  (w\<lparr>calls := calls w @ [ConsoleLog (hi_intersecting (isIntersecting e)) [Ref (Video (target e))]]\<rparr>)))
           @ [SetTimeout (IntersectionTimeout (target e)) 50 (nextTimerId w)]
      else [])"
  by (rule emitted_eqI) (simp only: hie_calls)

lemma hie_emits: "emits (\<lambda>_. True) w (snd (handleIntersection_entry e w))"
  unfolding emits_def by (rule exI, rule conjI, rule hie_calls) (simp add: list_all_iff)

lemma hie_pauses:
  "PauseCall v \<in> set (emitted w (snd (handleIntersection_entry e w)))
     \<longleftrightarrow> target e = v \<and> visible_video w e \<and> v \<notin> set (userClickedPlay w)"
proof -
  let ?wl = "w\<lparr>calls := calls w @ [ConsoleLog (hi_intersecting (isIntersecting e)) [Ref (Video (target e))]]\<rparr>"
  have p: "PauseCall v \<in> set (emitted ?wl (snd (pauseVideoIfAppropriate (Video (target e)) ''Intersection-Immediate'' True ?wl)))
     \<longleftrightarrow> target e = v \<and> v \<notin> set (userClickedPlay w)"
  proof (cases "target e = v")
    case True
    then show ?thesis using pva_pauses [of v ?wl "''Intersection-Immediate''" True] by simp
  next
    case False
    have "\<not> (is_console (PauseCall v) \<or> (\<exists>u. Video (target e) = Video u \<and> (PauseCall v = AddPlayListener u \<or>
             (PauseCall v = PauseCall u \<and> u \<notin> set (userClickedPlay ?wl) \<and> (True \<or> \<not> paused (video_of ?wl u))))))"
      using False by (auto simp: is_console_def)
    from emits_notin [OF pva_emits this] False show ?thesis by simp
  qed
  show ?thesis by (simp add: hie_emitted p) blast
qed

lemma hi_rel_refl: "hi_rel w w"
  by (simp add: hi_rel_def emits_refl)

lemma hi_rel_trans: "hi_rel w w1 \<Longrightarrow> hi_rel w1 w2 \<Longrightarrow> hi_rel w w2"
  by (auto simp: hi_rel_def intro: emits_trans)

lemma hie_rel: "hi_rel w (snd (handleIntersection_entry e w))"
  by (simp add: hi_rel_def hie_emits hie_timers)

lemma hi_rel: "hi_rel w (snd (handleIntersection entries w))"
  unfolding handleIntersection_def
  by (rule forEach_invariant [where P = "hi_rel w"]) (auto intro: hi_rel_refl hi_rel_trans hie_rel)

lemma hi_Normal [simp]: "fst (handleIntersection entries w) = Normal"
  unfolding handleIntersection_def by (rule forEach_Normal) simp

lemma hi_Cons: "handleIntersection (e # es) w = handleIntersection es (snd (handleIntersection_entry e w))"
  unfolding handleIntersection_def by (rule forEach_Cons_Normal) simp

lemma hi_Nil [simp]: "handleIntersection [] w = (Normal, w)"
  by (simp add: handleIntersection_def)

lemma hi_emitted_Cons:
  "emitted w (snd (handleIntersection (e # es) w)) =
     emitted w (snd (handleIntersection_entry e w))
     @ emitted (snd (handleIntersection_entry e w)) (snd (handleIntersection es (snd (handleIntersection_entry e w))))"
proof -
  have "emits (\<lambda>_. True) (snd (handleIntersection_entry e w))
          (snd (handleIntersection es (snd (handleIntersection_entry e w))))"
    using hi_rel [of "snd (handleIntersection_entry e w)" es] by (simp add: hi_rel_def)
  from emitted_trans [OF hie_emits this] show ?thesis by (simp add: hi_Cons)
qed

lemma hi_pauses:
  "PauseCall v \<in> set (emitted w (snd (handleIntersection entries w)))
     \<longleftrightarrow> v \<notin> set (userClickedPlay w) \<and> (\<exists>e \<in> set entries. target e = v \<and> visible_video w e)"
proof (induction entries arbitrary: w)
  case Nil
  show ?case by simp
next
  case (Cons x xs)
  let ?w1 = "snd (handleIntersection_entry x w)"
  have vis: "visible_video ?w1 = visible_video w"
    by (simp add: visible_video_def fun_eq_iff)
  show ?case
    by (simp add: hi_emitted_Cons Cons.IH hie_pauses vis) blast
qed

lemma hi_timeout:
  assumes "e \<in> set entries" "visible_video w e"
  shows "\<exists>i. SetTimeout (IntersectionTimeout (target e)) 50 i \<in> set (emitted w (snd (handleIntersection entries w)))
           \<and> \<lparr>timerId = i, due = now w + 50, callback = IntersectionTimeout (target e)\<rparr>
               \<in> set (timers (snd (handleIntersection entries w)))"
  using assms
proof (induction entries arbitrary: w)
  case Nil
  then show ?case by simp
next
  case (Cons x xs)
  let ?w1 = "snd (handleIntersection_entry x w)"
  let ?w2 = "snd (handleIntersection xs ?w1)"
  have rel: "hi_rel ?w1 ?w2" by (rule hi_rel)
  then obtain ts where ts: "timers ?w2 = timers ?w1 @ ts" by (auto simp: hi_rel_def)
  have vis: "visible_video ?w1 = visible_video w"
    by (simp add: visible_video_def fun_eq_iff)
  have res: "snd (handleIntersection (x # xs) w) = ?w2" by (simp add: hi_Cons)
  have em: "emitted w ?w2 = emitted w ?w1 @ emitted ?w1 ?w2"
    using hi_emitted_Cons [of w x xs] by (simp add: hi_Cons)
  show ?case
  proof (cases "e = x")
    case True
    with Cons.prems have v: "visible_video w x" by simp
    have "SetTimeout (IntersectionTimeout (target x)) 50 (nextTimerId w) \<in> set (emitted w ?w1)"
      using v by (simp add: hie_emitted)
    then have "SetTimeout (IntersectionTimeout (target x)) 50 (nextTimerId w) \<in> set (emitted w ?w2)"
      by (simp add: em)
    moreover have "\<lparr>timerId = nextTimerId w, due = now w + 50, callback = IntersectionTimeout (target x)\<rparr> \<in> set (timers ?w2)"
      using v by (simp add: ts hie_timers)
    ultimately show ?thesis unfolding res True by blast
  next
    case False
    with Cons.prems have "e \<in> set xs" by simp
    from Cons.IH [OF this, of ?w1] Cons.prems(2)
    obtain i where "SetTimeout (IntersectionTimeout (target e)) 50 i \<in> set (emitted ?w1 ?w2)"
      and "\<lparr>timerId = i, due = now w + 50, callback = IntersectionTimeout (target e)\<rparr> \<in> set (timers ?w2)"
      by (auto simp: vis)
    then show ?thesis unfolding res by (auto simp: em)
  qed
qed

text \<open>
  Claim C1. When an intersection entry reports that a video element outside
  \<open>userClickedPlay\<close> is intersecting, \<open>handleIntersection\<close> calls \<open>pause()\<close> on it within
  the same callback, whatever its \<open>paused\<close> flag, and sets a timeout of 50 ms whose
  callback is Assertive enforcement on the same video; when that timer fires with the
  video still outside \<open>userClickedPlay\<close>, \<open>pause()\<close> is called again. The position of the
  entry in the batch does not matter.
\<close>

theorem C1_visible_assertive_pause:
  assumes "e \<in> set entries" and "isIntersecting e"
    and "isHTMLVideoElement (video_of w (target e))"
    and "\<not> Set_has (userClickedPlay w) (target e)"
  shows "fst (handleIntersection entries w) = Normal
    \<and> PauseCall (target e) \<in> set (emitted w (snd (handleIntersection entries w)))
    \<and> (\<exists>i. SetTimeout (IntersectionTimeout (target e)) 50 i \<in> set (emitted w (snd (handleIntersection entries w)))
          \<and> \<lparr>timerId = i, due = now w + 50, callback = IntersectionTimeout (target e)\<rparr>
              \<in> set (timers (snd (handleIntersection entries w))))
    \<and> (\<forall>t \<in> set (timers (snd (handleIntersection entries w))).
          callback t = IntersectionTimeout (target e) \<longrightarrow>
          PauseCall (target e) \<in> set (emitted (snd (handleIntersection entries w))
                                       (fireTimer t (snd (handleIntersection entries w)))))"
proof -
  let ?v = "target e"
  let ?w' = "snd (handleIntersection entries w)"
  have vis: "visible_video w e" using assms(2,3) by (simp add: visible_video_def)
  have nu: "?v \<notin> set (userClickedPlay w)" using assms(4) by (simp add: Set_has_def)
  have p1: "PauseCall ?v \<in> set (emitted w ?w')"
    using hi_pauses [of ?v w entries] vis nu assms(1) by blast
  have ucp: "userClickedPlay ?w' = userClickedPlay w"
    using hi_rel [of w entries] by (simp add: hi_rel_def)
  have p2: "PauseCall ?v \<in> set (emitted ?w' (fireTimer t ?w'))"
    if t: "t \<in> set (timers ?w')" and cb: "callback t = IntersectionTimeout ?v" for t
  proof -
    let ?wt = "?w'\<lparr>timers := remove1 t (timers ?w'), now := max (now ?w') (due t)\<rparr>"
    have "fireTimer t ?w' = snd (pauseVideoIfAppropriate (Video ?v) ''Intersection-Timeout'' True ?wt)"
      using t cb by (simp add: fireTimer_def dispatch_Normal)
    moreover have "emitted ?w' = emitted ?wt" by (simp add: emitted_def fun_eq_iff)
    moreover have "PauseCall ?v \<in> set (emitted ?wt (snd (pauseVideoIfAppropriate (Video ?v) ''Intersection-Timeout'' True ?wt)))"
      using pva_pauses [of ?v ?wt "''Intersection-Timeout''" True] nu ucp by simp
    ultimately show ?thesis by simp
  qed
  from hi_timeout [OF assms(1) vis] p1 p2 show ?thesis by simp
qed

theorem C1_visible_assertive_pause_witness:
  "\<lparr>target = 0, isIntersecting = True\<rparr> \<in> set [\<lparr>target = 1, isIntersecting = True\<rparr>, \<lparr>target = 0, isIntersecting = True\<rparr>]
   \<and> isHTMLVideoElement (video_of world0 0) \<and> \<not> Set_has (userClickedPlay world0) 0
   \<and> PauseCall 0 \<in> set (emitted world0 (snd (handleIntersection
         [\<lparr>target = 1, isIntersecting = True\<rparr>, \<lparr>target = 0, isIntersecting = True\<rparr>] world0)))
   \<and> (\<exists>i. \<lparr>timerId = i, due = 50, callback = IntersectionTimeout 0\<rparr>
         \<in> set (timers (snd (handleIntersection
         [\<lparr>target = 1, isIntersecting = True\<rparr>, \<lparr>target = 0, isIntersecting = True\<rparr>] world0))))"
  using C1_visible_assertive_pause [of "\<lparr>target = 0, isIntersecting = True\<rparr>"
      "[\<lparr>target = 1, isIntersecting = True\<rparr>, \<lparr>target = 0, isIntersecting = True\<rparr>]" world0]
  by (simp add: world0_def page0_def video0_def video_of_def Set_has_def) blast

lemma same_script_refl: "same_script w w"
  by (simp add: same_script_def)

lemma same_script_trans: "same_script w w1 \<Longrightarrow> same_script w1 w2 \<Longrightarrow> same_script w w2"
  by (simp add: same_script_def)

lemma attach_same: "same_script w (snd (attachPlayListenerIfNeeded h w))"
  by (simp add: same_script_def)

lemma pva_same: "same_script w (snd (pauseVideoIfAppropriate h ctx a w))"
  by (simp add: same_script_def)

lemma hvp_video [simp]:
  "isHTMLVideoElement (video_of (snd (handleVideoPlay v w)) u) = isHTMLVideoElement (video_of w u)"
  "pauseImpl (video_of (snd (handleVideoPlay v w)) u) = pauseImpl (video_of w u)"
  "playImpl (video_of (snd (handleVideoPlay v w)) u) = playImpl (video_of w u)"
  "videosInDocument (doc (snd (handleVideoPlay v w))) = videosInDocument (doc w)"
  "closest (doc (snd (handleVideoPlay v w))) = closest (doc w)"
  "querySelector (doc (snd (handleVideoPlay v w))) = querySelector (doc w)"
  by (auto simp: handleVideoPlay_def prim_defs split: pause_behaviour.splits)

lemma hvp_same: "same_script w (snd (handleVideoPlay v w))"
  by (simp add: same_script_def)

subsection \<open>scanAndObserveAllVideos\<close>

lemmas scan_video_unfold = scanAndObserve_video_def console_log_def emit_def case_prod_beta Set_has_def

lemma scv_Normal [simp]: "fst (scanAndObserve_video v w) = Normal"
  by (simp add: scan_video_unfold)

lemma scv_same: "same_script w (snd (scanAndObserve_video v w))"
  by (simp add: scan_video_unfold same_script_def)

lemma scv_observed: "observedVideos (snd (scanAndObserve_video v w)) = Set_add (observedVideos w) v"
  by (simp add: scan_video_unfold) (simp add: Set_add_def)

lemma scv_skip:
  "Set_has (observedVideos w) v \<Longrightarrow> scanAndObserve_video v w = attachPlayListenerIfNeeded (Video v) w"
  by (simp add: scanAndObserve_video_def case_prod_beta prod_eq_iff)

lemma scv_calls:
  "calls (snd (scanAndObserve_video v w)) =
     calls w @ emitted w (snd (attachPlayListenerIfNeeded (Video v) w))
       @ (if v \<in> set (observedVideos w) then []
          else ConsoleLog scan_new [Ref (Video v)] # Observe v
               # emitted ((snd (attachPlayListenerIfNeeded (Video v) w))
                    \<lparr>calls := calls w @ emitted w (snd (attachPlayListenerIfNeeded (Video v) w)) @ [ConsoleLog scan_new [Ref (Video v)], Observe v],
                      observedVideos := Set_add (observedVideos w) v\<rparr>)
                  (snd (pauseVideoIfAppropriate (Video v) ''Scan-InitialCheck'' False
                    ((snd (attachPlayListenerIfNeeded (Video v) w))
                    \<lparr>calls := calls w @ emitted w (snd (attachPlayListenerIfNeeded (Video v) w)) @ [ConsoleLog scan_new [Ref (Video v)], Observe v],
                      observedVideos := Set_add (observedVideos w) v\<rparr>))))"
  by (simp add: scan_video_unfold pva_calls attach_calls)

lemma scv_emits:
  "emits (\<lambda>c. is_console c \<or> c = AddPlayListener v
            \<or> (c = Observe v \<and> v \<notin> set (observedVideos w))
            \<or> (c = PauseCall v \<and> v \<notin> set (userClickedPlay w) \<and> v \<notin> set (observedVideos w)))
     w (snd (scanAndObserve_video v w))"
proof -
  let ?w1 = "snd (attachPlayListenerIfNeeded (Video v) w)"
  let ?w2 = "?w1\<lparr>calls := calls w @ emitted w ?w1 @ [ConsoleLog scan_new [Ref (Video v)], Observe v],
                      observedVideos := Set_add (observedVideos w) v\<rparr>"
  have a: "list_all (\<lambda>c. is_console c \<or> c = AddPlayListener v) (emitted w ?w1)"
    using attach_emits [of "Video v" w] by (auto simp: emits_def emitted_def)
  have p: "list_all (\<lambda>c. is_console c \<or> c = AddPlayListener v \<or> (c = PauseCall v \<and> v \<notin> set (userClickedPlay w)))
             (emitted ?w2 (snd (pauseVideoIfAppropriate (Video v) ''Scan-InitialCheck'' False ?w2)))"
    using pva_emits [of "Video v" ?w2 False "''Scan-InitialCheck''"]
    by (auto simp: emits_def emitted_def list_all_iff)
  show ?thesis
    unfolding emits_def
    apply (rule exI, rule conjI, rule scv_calls)
    using a p by (auto simp: list_all_iff is_console_def)
qed

lemma scan_body:
  "scanAndObserveAllVideos w =
     (case forEach scanAndObserve_video (videosInDocument (doc w))
             (w\<lparr>calls := calls w @ [ConsoleLog scan_start [], QuerySelectorAll,
                                     ConsoleLog (scan_found (length (videosInDocument (doc w)))) []]\<rparr>) of
        (c, w') \<Rightarrow> (c, w'\<lparr>calls := calls w' @ [ConsoleLog scan_finished []]\<rparr>))"
proof -
  let ?w0 = "w\<lparr>calls := calls w @ [ConsoleLog scan_start [], QuerySelectorAll,
                                     ConsoleLog (scan_found (length (videosInDocument (doc w)))) []]\<rparr>"
  have "fst (forEach scanAndObserve_video (videosInDocument (doc w)) ?w0) = Normal"
    by (rule forEach_Normal) simp
  then show ?thesis
    by (cases "forEach scanAndObserve_video (videosInDocument (doc w)) ?w0")
       (simp add: scanAndObserveAllVideos_def console_log_def emit_def Let_def)
qed

lemma scan_Normal [simp]: "fst (scanAndObserveAllVideos w) = Normal"
proof -
  have "fst (forEach scanAndObserve_video xs w0) = Normal" for xs w0
    by (rule forEach_Normal) simp
  then show ?thesis by (simp add: scan_body case_prod_beta)
qed

lemma scan_same: "same_script w (snd (scanAndObserveAllVideos w))"
proof -
  let ?w0 = "w\<lparr>calls := calls w @ [ConsoleLog scan_start [], QuerySelectorAll,
                                     ConsoleLog (scan_found (length (videosInDocument (doc w)))) []]\<rparr>"
  have "same_script ?w0 (snd (forEach scanAndObserve_video (videosInDocument (doc w)) ?w0))"
    by (rule forEach_invariant [where P = "same_script ?w0"])
       (auto intro: same_script_refl same_script_trans scv_same)
  then show ?thesis by (simp add: scan_body case_prod_beta same_script_def)
qed

lemma intent_step_refl: "intent_step w w"
  by (simp add: intent_step_def emits_refl)

lemma intent_step_trans:
  assumes "intent_step w w1" "intent_step w1 w2"
  shows "intent_step w w2"
proof -
  have sub: "set (userClickedPlay w) \<subseteq> set (userClickedPlay w1)"
    using assms(1) by (auto simp: intent_step_def dest: set_mono_prefix)
  have "emits (no_pause_of_granted w) w1 w2"
    by (rule emits_mono [of "no_pause_of_granted w1"])
       (use assms(2) sub in \<open>auto simp: intent_step_def no_pause_of_granted_def split: call.splits\<close>)
  with assms show ?thesis
    by (auto simp: intent_step_def intro: emits_trans)
qed

lemma intent_stepI:
  "userClickedPlay w' = userClickedPlay w \<Longrightarrow> emits A w w' \<Longrightarrow> (\<And>c. A c \<Longrightarrow> no_pause_of_granted w c)
     \<Longrightarrow> intent_step w w'"
  by (auto simp: intent_step_def intro: emits_mono)

lemma intent_step_uncaught: "intent_step w w' \<Longrightarrow> intent_step w (w'\<lparr>uncaught := k\<rparr>)"
  by (simp add: intent_step_def emits_def)

lemma intent_step_dispatch: "intent_step w (snd (h w)) \<Longrightarrow> intent_step w (dispatch h w)"
  by (cases "h w") (auto simp: dispatch_def intent_step_uncaught split: completion.splits)

lemma pva_intent: "intent_step w (snd (pauseVideoIfAppropriate h ctx a w))"
  by (rule intent_stepI [OF _ pva_emits]) (auto simp: no_pause_of_granted_def is_console_def split: call.splits)

lemma hvp_intent: "intent_step w (snd (handleVideoPlay v w))"
  by (rule intent_stepI [OF _ hvp_emits]) (auto simp: no_pause_of_granted_def is_console_def split: call.splits)

lemma scv_intent: "intent_step w (snd (scanAndObserve_video v w))"
  by (rule intent_stepI [OF _ scv_emits])
     (use scv_same [of w v] in \<open>auto simp: same_script_def no_pause_of_granted_def is_console_def split: call.splits\<close>)

lemma forEach_intent:
  assumes "\<And>x w. intent_step w (snd (f x w))"
  shows "intent_step w (snd (forEach f xs w))"
  by (rule forEach_invariant [where P = "intent_step w"])
     (auto intro: intent_step_refl intent_step_trans assms)

lemma emit_intent: "\<not> is_pause c \<Longrightarrow> intent_step w (snd (emit c w))"
  by (cases c) (auto simp: intent_step_def emits_def emit_def no_pause_of_granted_def)

lemma scan_intent: "intent_step w (snd (scanAndObserveAllVideos w))"
proof -
  let ?w0 = "w\<lparr>calls := calls w @ [ConsoleLog scan_start [], QuerySelectorAll,
                                     ConsoleLog (scan_found (length (videosInDocument (doc w)))) []]\<rparr>"
  let ?w1 = "snd (forEach scanAndObserve_video (videosInDocument (doc w)) ?w0)"
  have a: "intent_step w ?w0"
    by (simp add: intent_step_def emits_def no_pause_of_granted_def)
  have b: "intent_step ?w0 ?w1" by (rule forEach_intent) (rule scv_intent)
  have c: "intent_step ?w1 (?w1\<lparr>calls := calls ?w1 @ [ConsoleLog scan_finished []]\<rparr>)"
    by (simp add: intent_step_def emits_def no_pause_of_granted_def)
  have "snd (scanAndObserveAllVideos w) = ?w1\<lparr>calls := calls ?w1 @ [ConsoleLog scan_finished []]\<rparr>"
    by (simp add: scan_body case_prod_beta)
  with intent_step_trans [OF intent_step_trans [OF a b] c] show ?thesis by simp
qed

lemma hie_intent: "intent_step w (snd (handleIntersection_entry e w))"
proof (cases "visible_video w e")
  case False
  then show ?thesis by (simp add: hie_skip intent_step_refl)
next
  case True
  let ?wl = "w\<lparr>calls := calls w @ [ConsoleLog (hi_intersecting (isIntersecting e)) [Ref (Video (target e))]]\<rparr>"
  let ?wp = "snd (pauseVideoIfAppropriate (Video (target e)) ''Intersection-Immediate'' True ?wl)"
  have a: "intent_step w ?wl"
    by (simp add: intent_step_def emits_def no_pause_of_granted_def)
  have b: "intent_step ?wl ?wp" by (rule pva_intent)
  have c: "intent_step ?wp (snd (setTimeout (IntersectionTimeout (target e)) 50 ?wp))"
    by (simp add: intent_step_def emits_def no_pause_of_granted_def setTimeout_def Let_def)
  have "snd (handleIntersection_entry e w) = snd (setTimeout (IntersectionTimeout (target e)) 50 ?wp)"
    using True by (simp add: handleIntersection_entry_def visible_video_def console_log_def emit_def case_prod_beta Let_def)
  with intent_step_trans [OF intent_step_trans [OF a b] c] show ?thesis by simp
qed

lemma hi_intent: "intent_step w (snd (handleIntersection es w))"
  unfolding handleIntersection_def by (rule forEach_intent) (rule hie_intent)

lemma is_console_excl:
  "is_console c \<Longrightarrow> \<not> is_pause c \<and> c \<noteq> QuerySelectorAll \<and> c \<noteq> Observe u"
  by (cases c) (simp_all add: is_console_def)

lemma block_single: "block [s] w = s w"
  by (cases "s w") (auto split: completion.splits)

lemma block_Cons_Normal: "fst (s w) = Normal \<Longrightarrow> block (s # ss) w = block ss (snd (s w))"
  by (cases "s w") simp

lemma emit_fst [simp]: "fst (emit c w) = Normal"
  by (simp add: emit_def)

lemma emit_snd: "snd (emit c w) = w\<lparr>calls := calls w @ [c]\<rparr>"
  by (simp add: emit_def)

lemmas click_unfold = handleBodyClick_def console_log_def Set_has_def block_single block_Cons_Normal emit_snd

lemma hbc_outside:
  "closest (doc w) n = None \<Longrightarrow>
   handleBodyClick n w = (Normal, w\<lparr>calls := calls w @ [ConsoleLog hbc_click [NodeRef n], Closest n,
                                                        ConsoleLog hbc_outside []]\<rparr>)"
  by (simp add: click_unfold emit_def del: block.simps)

lemma hbc_novideo:
  "closest (doc w) n = Some c \<Longrightarrow> querySelector (doc w) c = None \<Longrightarrow>
   handleBodyClick n w = (Normal, w\<lparr>calls := calls w @ [ConsoleLog hbc_click [NodeRef n], Closest n,
                                        ConsoleLog hbc_inside [NodeRef c], QuerySelector c,
                                        ConsoleLog hbc_novideo []]\<rparr>)"
  by (simp add: click_unfold emit_def del: block.simps)

lemma hbc_video:
  assumes "closest (doc w) n = Some c" "querySelector (doc w) c = Some v"
  shows "handleBodyClick n w = host_play v (click_pre n c v w)"
proof (cases "v \<in> set (userClickedPlay w)")
  case True
  with assms show ?thesis
    by (simp add: click_unfold click_pre_def Set_add_def Let_def del: block.simps)
next
  case False
  with assms show ?thesis
    by (simp add: click_unfold click_pre_def Set_add_def Let_def del: block.simps)
qed

lemma click_pre_fields [simp]:
  "userClickedPlay (click_pre n c v w) = Set_add (userClickedPlay w) v"
  "observedVideos (click_pre n c v w) = observedVideos w"
  "debounceTimer (click_pre n c v w) = debounceTimer w"
  "timers (click_pre n c v w) = timers w"
  "nextTimerId (click_pre n c v w) = nextTimerId w"
  "now (click_pre n c v w) = now w"
  "mutationObserverActive (click_pre n c v w) = mutationObserverActive w"
  "playPromises (click_pre n c v w) = playPromises w"
  "uncaught (click_pre n c v w) = uncaught w"
  "playImpl (video_of (click_pre n c v w) u) = playImpl (video_of w u)"
  by (simp_all add: click_pre_def Let_def Set_add_def)

lemma click_pre_emits:
  "emits (\<lambda>c. \<not> is_pause c \<and> c \<noteq> QuerySelectorAll \<and> (\<forall>u. c \<noteq> Observe u)) w (click_pre n c v w)"
proof -
  let ?w0 = "w\<lparr>calls := calls w @ [ConsoleLog hbc_click [NodeRef n], Closest n,
                                        ConsoleLog hbc_inside [NodeRef c], QuerySelector c]\<rparr>"
  have "list_all (\<lambda>c. \<not> is_pause c \<and> c \<noteq> QuerySelectorAll \<and> (\<forall>u. c \<noteq> Observe u))
            (emitted ?w0 (snd (attachPlayListenerIfNeeded (Video v) ?w0)))"
    using attach_emits [of "Video v" ?w0]
    by (auto simp: emits_def emitted_def list_all_iff dest: is_console_excl)
  then show ?thesis
    by (simp add: emits_def click_pre_def Let_def attach_calls)
qed

lemma host_play_fields [simp]:
  "userClickedPlay (snd (host_play v w)) = userClickedPlay w"
  "observedVideos (snd (host_play v w)) = observedVideos w"
  "debounceTimer (snd (host_play v w)) = debounceTimer w"
  "timers (snd (host_play v w)) = timers w"
  "nextTimerId (snd (host_play v w)) = nextTimerId w"
  "now (snd (host_play v w)) = now w"
  "mutationObserverActive (snd (host_play v w)) = mutationObserverActive w"
  "uncaught (snd (host_play v w)) = uncaught w"
  "calls (snd (host_play v w)) = calls w @ [PlayCall v]"
  "fst (host_play v w) = (if playImpl (video_of w v) = PlayThrows then Throw else Normal)"
  by (cases "playImpl (video_of w v)"; simp add: host_play_def Let_def)+

lemma hbc_None:
  "clicked_video w n = None \<Longrightarrow> handleBodyClick n w = (Normal, w\<lparr>calls := calls w @ click_miss n w\<rparr>)"
  by (cases "closest (doc w) n") (simp_all add: clicked_video_def click_miss_def hbc_outside hbc_novideo)

lemma hbc_Some:
  "clicked_video w n = Some v \<Longrightarrow>
   handleBodyClick n w = host_play v (click_pre n (the (closest (doc w) n)) v w)"
  by (cases "closest (doc w) n") (simp_all add: clicked_video_def hbc_video)

lemma click_miss_calls:
  "list_all (\<lambda>c. \<not> is_pause c \<and> c \<noteq> QuerySelectorAll \<and> (\<forall>u. c \<noteq> Observe u)) (click_miss n w)"
  by (cases "closest (doc w) n") (simp_all add: click_miss_def)

lemma hbc_ucp:
  "userClickedPlay (snd (handleBodyClick n w)) =
     (case clicked_video w n of None \<Rightarrow> userClickedPlay w | Some v \<Rightarrow> Set_add (userClickedPlay w) v)"
  by (cases "clicked_video w n") (simp_all add: hbc_None hbc_Some)

lemma hbc_completion:
  "fst (handleBodyClick n w) =
     (case clicked_video w n of None \<Rightarrow> Normal
      | Some v \<Rightarrow> if playImpl (video_of w v) = PlayThrows then Throw else Normal)"
  by (cases "clicked_video w n") (simp_all add: hbc_None hbc_Some)

lemma hbc_frame [simp]:
  "observedVideos (snd (handleBodyClick n w)) = observedVideos w"
  "debounceTimer (snd (handleBodyClick n w)) = debounceTimer w"
  "timers (snd (handleBodyClick n w)) = timers w"
  "nextTimerId (snd (handleBodyClick n w)) = nextTimerId w"
  "now (snd (handleBodyClick n w)) = now w"
  "mutationObserverActive (snd (handleBodyClick n w)) = mutationObserverActive w"
  "uncaught (snd (handleBodyClick n w)) = uncaught w"
  by (cases "clicked_video w n"; simp add: hbc_None hbc_Some)+

lemma hbc_emits:
  "emits (\<lambda>c. \<not> is_pause c \<and> c \<noteq> QuerySelectorAll \<and> (\<forall>u. c \<noteq> Observe u)) w (snd (handleBodyClick n w))"
proof (cases "clicked_video w n")
  case None
  then show ?thesis using click_miss_calls [of n w] by (simp add: hbc_None emits_def)
next
  case (Some v)
  let ?p = "click_pre n (the (closest (doc w) n)) v w"
  have "emits (\<lambda>c. \<not> is_pause c \<and> c \<noteq> QuerySelectorAll \<and> (\<forall>u. c \<noteq> Observe u)) ?p (snd (host_play v ?p))"
    by (simp add: emits_def)
  from emits_trans [OF click_pre_emits this] Some show ?thesis by (simp add: hbc_Some)
qed

lemma hbc_intent: "intent_step w (snd (handleBodyClick n w))"
proof -
  have "prefix (userClickedPlay w) (userClickedPlay (snd (handleBodyClick n w)))"
    by (simp add: hbc_ucp Set_add_def split: option.splits)
  moreover have "emits (no_pause_of_granted w) w (snd (handleBodyClick n w))"
    by (rule emits_mono [OF hbc_emits]) (auto simp: no_pause_of_granted_def split: call.splits)
  ultimately show ?thesis by (simp add: intent_step_def)
qed

subsection \<open>Mutation Watcher\<close>

lemma deb_result:
  "debouncedScanAndObserve w =
     (Normal, w\<lparr>timers := (case debounceTimer w of None \<Rightarrow> timers w
                            | Some i \<Rightarrow> filter (\<lambda>x. timerId x \<noteq> i) (timers w))
                          @ [\<lparr>timerId = nextTimerId w, due = now w + 300, callback = DebouncedScan\<rparr>],
                nextTimerId := Suc (nextTimerId w),
                calls := calls w @ [ClearTimeout (debounceTimer w), SetTimeout DebouncedScan 300 (nextTimerId w)],
                debounceTimer := Some (nextTimerId w)\<rparr>)"
  by (simp add: debouncedScanAndObserve_def clearTimeout_def setTimeout_def Let_def)

lemma mc_Normal [simp]: "fst (mutationCallback ms w) = Normal"
  by (simp add: mutationCallback_def deb_result)

lemma mc_intent: "intent_step w (snd (mutationCallback ms w))"
  by (simp add: mutationCallback_def deb_result intent_step_def emits_def no_pause_of_granted_def)

lemma odc_result:
  "observeDOMChanges w =
     (Normal, w\<lparr>mutationObserverActive := True,
                calls := calls w @ [ObserveBodyMutations, ConsoleLog odc_setup []]\<rparr>)"
  by (simp add: observeDOMChanges_def console_log_def emit_def)

lemma ps_result:
  "playSettled v ok w =
     (Normal, w\<lparr>calls := calls w @ [if ok then ConsoleLog hbc_success [Ref (Video v)]
                                      else ConsoleError hbc_error [ErrorVal, Ref (Video v)]]\<rparr>)"
  by (simp add: playSettled_def console_log_def console_error_def emit_def)

subsection \<open>Timers and the event loop\<close>

lemma rc_Normal [simp]: "fst (runCallback cb w) = Normal"
  by (cases cb) (simp_all add: console_log_def emit_def case_prod_beta odc_result)

lemma rc_intent: "intent_step w (snd (runCallback cb w))"
proof (cases cb)
  case InitialScan
  let ?w0 = "w\<lparr>calls := calls w @ [ConsoleLog init_scan_run []]\<rparr>"
  have "intent_step w ?w0" by (simp add: intent_step_def emits_def no_pause_of_granted_def)
  from intent_step_trans [OF this scan_intent [of ?w0]] InitialScan
  show ?thesis by (simp add: console_log_def emit_def case_prod_beta)
next
  case SetupMutationObserver
  then show ?thesis
    by (simp add: console_log_def emit_def odc_result intent_step_def emits_def no_pause_of_granted_def)
next
  case DebouncedScan
  let ?w0 = "w\<lparr>calls := calls w @ [ConsoleLog deb_expired []]\<rparr>"
  have "intent_step w ?w0" by (simp add: intent_step_def emits_def no_pause_of_granted_def)
  from intent_step_trans [OF this scan_intent [of ?w0]] DebouncedScan
  show ?thesis by (simp add: console_log_def emit_def case_prod_beta)
next
  case (IntersectionTimeout v)
  then show ?thesis by (simp add: pva_intent)
qed

lemma fireTimer_eq:
  "fireTimer t w =
     (if t \<in> set (timers w)
      then snd (runCallback (callback t) (w\<lparr>timers := remove1 t (timers w), now := max (now w) (due t)\<rparr>))
      else w)"
  by (simp add: fireTimer_def dispatch_Normal)

lemma fireTimer_intent: "intent_step w (fireTimer t w)"
proof (cases "t \<in> set (timers w)")
  case False
  then show ?thesis by (simp add: fireTimer_eq intent_step_refl)
next
  case True
  let ?w0 = "w\<lparr>timers := remove1 t (timers w), now := max (now w) (due t)\<rparr>"
  have "intent_step w ?w0" by (simp add: intent_step_def emits_def)
  from intent_step_trans [OF this rc_intent [of ?w0]] True
  show ?thesis by (simp add: fireTimer_eq)
qed

lemma fold_intent:
  assumes "\<And>x w. intent_step w (f x w)"
  shows "intent_step w (fold f xs w)"
proof (induction xs arbitrary: w)
  case Nil
  show ?case by (simp add: intent_step_refl)
next
  case (Cons x xs)
  from intent_step_trans [OF assms [of w x] Cons.IH [of "f x w"]]
  show ?case by simp
qed

lemma advance_intent: "intent_step w (advance dt w)"
proof -
  let ?ts = "sort_key due (filter (\<lambda>t. due t \<le> now w + dt) (timers w))"
  have a: "intent_step w (fold fireTimer ?ts w)"
    by (rule fold_intent) (rule fireTimer_intent)
  have "intent_step (fold fireTimer ?ts w) ((fold fireTimer ?ts w)\<lparr>now := now w + dt\<rparr>)"
    by (simp add: intent_step_def emits_def)
  from intent_step_trans [OF a this] show ?thesis by (simp add: advance_def Let_def)
qed

lemma step_intent: "intent_step w (step e w)"
proof (cases e)
  case (Click n)
  then show ?thesis by (simp add: intent_step_dispatch hbc_intent)
next
  case (Intersection es)
  then show ?thesis by (simp add: intent_step_dispatch hi_intent)
next
  case (Mutations ms)
  then show ?thesis by (simp add: intent_step_dispatch mc_intent intent_step_refl)
next
  case (PlayEvent v)
  then show ?thesis by (simp add: intent_step_dispatch hvp_intent intent_step_refl)
next
  case (PlaySettled v ok)
  then show ?thesis
    by (simp add: dispatch_def ps_result intent_step_refl)
       (simp add: intent_step_def emits_def no_pause_of_granted_def)
next
  case (Advance dt)
  then show ?thesis by (simp add: advance_intent)
next
  case (HostChange f)
  then show ?thesis by (simp add: intent_step_def emits_def)
qed

lemma run_intent: "intent_step w (run es w)"
proof (induction es arbitrary: w)
  case Nil
  show ?case by (simp add: intent_step_refl)
next
  case (Cons e es)
  from intent_step_trans [OF step_intent [of w e] Cons.IH [of "step e w"]]
  show ?case by simp
qed

lemma dispatch_fields [simp]:
  "userClickedPlay (dispatch h w) = userClickedPlay (snd (h w))"
  "observedVideos (dispatch h w) = observedVideos (snd (h w))"
  "debounceTimer (dispatch h w) = debounceTimer (snd (h w))"
  "timers (dispatch h w) = timers (snd (h w))"
  "nextTimerId (dispatch h w) = nextTimerId (snd (h w))"
  "now (dispatch h w) = now (snd (h w))"
  "mutationObserverActive (dispatch h w) = mutationObserverActive (snd (h w))"
  "playPromises (dispatch h w) = playPromises (snd (h w))"
  "calls (dispatch h w) = calls (snd (h w))"
  "doc (dispatch h w) = doc (snd (h w))"
  by (cases "h w"; cases "fst (h w)"; simp add: dispatch_def)+

lemma intent_step_no_pause:
  assumes "intent_step w w'" "v \<in> set (userClickedPlay w)"
  shows "PauseCall v \<notin> set (emitted w w')" and "v \<in> set (userClickedPlay w')"
proof -
  have "\<not> no_pause_of_granted w (PauseCall v)"
    using assms(2) by (simp add: no_pause_of_granted_def)
  with assms(1) show "PauseCall v \<notin> set (emitted w w')"
    by (auto simp: intent_step_def dest: emits_notin)
  show "v \<in> set (userClickedPlay w')"
    using assms by (auto simp: intent_step_def dest: set_mono_prefix)
qed

text \<open>
  Claim C2. While a video is in \<open>userClickedPlay\<close>, no enforcement path calls \<open>pause()\<close>
  on it: not \<open>pauseVideoIfAppropriate\<close> in Assertive or Conservative mode (whatever
  handle it is given), not the play listener \<open>handleVideoPlay\<close>. Since nothing removes a
  video from the set, no sequence of events of any kind (clicks, intersections, mutations,
  play events, timers, changes made by the page) ever issues a pause call on it.
\<close>

theorem C2_no_pause_while_granted:
  assumes "Set_has (userClickedPlay w) v"
  shows "PauseCall v \<notin> set (emitted w (snd (pauseVideoIfAppropriate h ctx True w)))
    \<and> PauseCall v \<notin> set (emitted w (snd (pauseVideoIfAppropriate h ctx False w)))
    \<and> PauseCall v \<notin> set (emitted w (snd (handleVideoPlay u w)))
    \<and> PauseCall v \<notin> set (emitted w (run es w))
    \<and> Set_has (userClickedPlay (run es w)) v"
proof -
  have v: "v \<in> set (userClickedPlay w)" using assms by (simp add: Set_has_def)
  show ?thesis
    using intent_step_no_pause [OF pva_intent v, of h ctx True]
      intent_step_no_pause [OF pva_intent v, of h ctx False]
      intent_step_no_pause [OF hvp_intent v, of u]
      intent_step_no_pause [OF run_intent v, of es]
    by (simp add: Set_has_def)
qed

theorem C2_no_pause_while_granted_witness:
  "Set_has (userClickedPlay world0) 1
   \<and> PauseCall 1 \<notin> set (emitted world0 (snd (pauseVideoIfAppropriate (Video 1) ''Intersection-Immediate'' True world0)))
   \<and> PauseCall 1 \<notin> set (emitted world0 (snd (handleVideoPlay 1 world0)))
   \<and> PauseCall 1 \<notin> set (emitted world0
        (run [Intersection [\<lparr>target = 1, isIntersecting = True\<rparr>], Advance 50, PlayEvent 1, Advance 1500] world0))"
proof -
  have h: "Set_has (userClickedPlay world0) 1" by (simp add: world0_def Set_has_def)
  from C2_no_pause_while_granted [OF h, of "Video 1" "''Intersection-Immediate''" 1
      "[Intersection [\<lparr>target = 1, isIntersecting = True\<rparr>], Advance 50, PlayEvent 1, Advance 1500]"] h
  show ?thesis by blast
qed

text \<open>
  Claim C9. \<open>userClickedPlay\<close> only grows: every event the script handles leaves the set
  as it was or appends to it, so the set before any sequence of events is a prefix (in
  insertion order) of the set after it. No operation removes a video.
\<close>

theorem C9_intent_monotone:
  "prefix (userClickedPlay w) (userClickedPlay (step e w))
   \<and> prefix (userClickedPlay w) (userClickedPlay (run es w))
   \<and> set (userClickedPlay w) \<subseteq> set (userClickedPlay (run es w))"
  using step_intent [of w e] run_intent [of w es]
  by (auto simp: intent_step_def dest: set_mono_prefix)

theorem C9_intent_monotone_witness:
  "userClickedPlay world0 = [1]
   \<and> userClickedPlay (step (Click 5) world0) = [1, 0]
   \<and> prefix (userClickedPlay world0) (userClickedPlay (step (Click 5) world0))
   \<and> prefix (userClickedPlay world0)
        (userClickedPlay (run [Click 5, PlaySettled 0 False, Advance 1500, Click 5] world0))"
proof -
  have a: "userClickedPlay world0 = [1]" by (simp add: world0_def)
  have b: "userClickedPlay (step (Click 5) world0) = [1, 0]"
    by (simp add: hbc_ucp clicked_video_def Set_add_def world0_def page0_def)
  from C9_intent_monotone [of world0 "Click 5" "[Click 5, PlaySettled 0 False, Advance 1500, Click 5]"] a b
  show ?thesis by blast
qed

text \<open>
  Claim C3, as the code has it. The Visibility Monitor issues a pause call on a video
  exactly when an intersection entry reports the video as intersecting (it has come into
  view), the target is an HTML video element and the video is not in \<open>userClickedPlay\<close>.
  A batch whose entries all report \<open>isIntersecting = false\<close> (videos that left the visible
  area) changes nothing: no pause call, no timer.
\<close>

theorem C3_pause_on_entering_view:
  "(PauseCall v \<in> set (emitted w (snd (handleIntersection entries w)))
      \<longleftrightarrow> \<not> Set_has (userClickedPlay w) v
          \<and> (\<exists>e \<in> set entries. target e = v \<and> isIntersecting e \<and> isHTMLVideoElement (video_of w v)))
   \<and> (list_all (\<lambda>e. \<not> isIntersecting e) entries \<longrightarrow> handleIntersection entries w = (Normal, w))"
proof -
  have "handleIntersection entries w = (Normal, w)" if "list_all (\<lambda>e. \<not> isIntersecting e) entries"
    using that
  proof (induction entries)
    case Nil
    show ?case by simp
  next
    case (Cons x xs)
    then have "handleIntersection_entry x w = (Normal, w)"
      by (simp add: hie_skip visible_video_def)
    with Cons show ?case by (simp add: hi_Cons)
  qed
  moreover have "PauseCall v \<in> set (emitted w (snd (handleIntersection entries w)))
      \<longleftrightarrow> \<not> Set_has (userClickedPlay w) v
          \<and> (\<exists>e \<in> set entries. target e = v \<and> isIntersecting e \<and> isHTMLVideoElement (video_of w v))"
    by (auto simp: hi_pauses visible_video_def Set_has_def)
  ultimately show ?thesis by blast
qed

theorem C3_pause_on_entering_view_witness:
  "\<not> Set_has (userClickedPlay world0) 0
   \<and> PauseCall 0 \<in> set (emitted world0 (snd (handleIntersection [\<lparr>target = 0, isIntersecting = True\<rparr>] world0)))
   \<and> list_all (\<lambda>e. \<not> isIntersecting e) [\<lparr>target = 0, isIntersecting = False\<rparr>]
   \<and> handleIntersection [\<lparr>target = 0, isIntersecting = False\<rparr>] world0 = (Normal, world0)"
proof -
  have a: "\<not> Set_has (userClickedPlay world0) 0" by (simp add: world0_def Set_has_def)
  have b: "isHTMLVideoElement (video_of world0 0)" by (simp add: world0_def page0_def video0_def video_of_def)
  have c: "list_all (\<lambda>e. \<not> isIntersecting e) [\<lparr>target = 0, isIntersecting = False\<rparr>]" by simp
  from C3_pause_on_entering_view [of 0 world0 "[\<lparr>target = 0, isIntersecting = True\<rparr>]"]
       C3_pause_on_entering_view [of 0 world0 "[\<lparr>target = 0, isIntersecting = False\<rparr>]"] a b c
  show ?thesis by simp
qed

text \<open>
  The claim as the spec words it fails: video 0 of \<open>world0\<close> is an HTML video element, is
  playing and was never clicked; the entry that reports it has left the visible area
  produces no pause call and leaves the world untouched, so the video keeps playing.
\<close>

theorem C3_leaving_view_counterexample:
  "isHTMLVideoElement (video_of world0 0) \<and> \<not> paused (video_of world0 0)
   \<and> PauseCall 0 \<notin> set (emitted world0 (step (Intersection [\<lparr>target = 0, isIntersecting = False\<rparr>]) world0))
   \<and> \<not> paused (video_of (step (Intersection [\<lparr>target = 0, isIntersecting = False\<rparr>]) world0) 0)"
proof -
  have "handleIntersection_entry \<lparr>target = 0, isIntersecting = False\<rparr> world0 = (Normal, world0)"
    by (simp add: hie_skip visible_video_def)
  then have "step (Intersection [\<lparr>target = 0, isIntersecting = False\<rparr>]) world0 = world0"
    by (simp add: hi_Cons dispatch_def)
  then show ?thesis
    by (simp add: world0_def page0_def video0_def video_of_def)
qed

subsection \<open>What timer callbacks leave unchanged\<close>

lemma scan_frame [simp]:
  "userClickedPlay (snd (scanAndObserveAllVideos w)) = userClickedPlay w"
  "debounceTimer (snd (scanAndObserveAllVideos w)) = debounceTimer w"
  "timers (snd (scanAndObserveAllVideos w)) = timers w"
  "nextTimerId (snd (scanAndObserveAllVideos w)) = nextTimerId w"
  "now (snd (scanAndObserveAllVideos w)) = now w"
  "mutationObserverActive (snd (scanAndObserveAllVideos w)) = mutationObserverActive w"
  "playPromises (snd (scanAndObserveAllVideos w)) = playPromises w"
  "uncaught (snd (scanAndObserveAllVideos w)) = uncaught w"
  "videosInDocument (doc (snd (scanAndObserveAllVideos w))) = videosInDocument (doc w)"
  "playImpl (video_of (snd (scanAndObserveAllVideos w)) u) = playImpl (video_of w u)"
  "pauseImpl (video_of (snd (scanAndObserveAllVideos w)) u) = pauseImpl (video_of w u)"
  using scan_same [of w] by (simp_all add: same_script_def)

lemma rc_frame [simp]:
  "userClickedPlay (snd (runCallback cb w)) = userClickedPlay w"
  "debounceTimer (snd (runCallback cb w)) = debounceTimer w"
  "timers (snd (runCallback cb w)) = timers w"
  "nextTimerId (snd (runCallback cb w)) = nextTimerId w"
  "now (snd (runCallback cb w)) = now w"
  "playPromises (snd (runCallback cb w)) = playPromises w"
  "uncaught (snd (runCallback cb w)) = uncaught w"
  by (cases cb; simp add: console_log_def emit_def block_Cons_Normal block_single odc_result del: block.simps)+

lemma fireTimer_frame [simp]:
  "userClickedPlay (fireTimer t w) = userClickedPlay w"
  "debounceTimer (fireTimer t w) = debounceTimer w"
  "nextTimerId (fireTimer t w) = nextTimerId w"
  "playPromises (fireTimer t w) = playPromises w"
  "uncaught (fireTimer t w) = uncaught w"
  "timers (fireTimer t w) = remove1 t (timers w)"
  by (simp_all add: fireTimer_eq remove1_idem)

lemma fold_fireTimer_frame [simp]:
  "userClickedPlay (fold fireTimer ts w) = userClickedPlay w"
  "debounceTimer (fold fireTimer ts w) = debounceTimer w"
  "nextTimerId (fold fireTimer ts w) = nextTimerId w"
  "playPromises (fold fireTimer ts w) = playPromises w"
  "uncaught (fold fireTimer ts w) = uncaught w"
  by (induction ts arbitrary: w; simp)+

lemma advance_frame [simp]:
  "userClickedPlay (advance dt w) = userClickedPlay w"
  "debounceTimer (advance dt w) = debounceTimer w"
  "nextTimerId (advance dt w) = nextTimerId w"
  "playPromises (advance dt w) = playPromises w"
  "uncaught (advance dt w) = uncaught w"
  "now (advance dt w) = now w + dt"
  by (simp_all add: advance_def Let_def)

lemma dispatch_uncaught:
  "uncaught (dispatch h w) = (if fst (h w) = Throw then Suc (uncaught (snd (h w))) else uncaught (snd (h w)))"
  by (cases "h w"; cases "fst (h w)"; simp add: dispatch_def)

lemma hi_frame [simp]:
  "userClickedPlay (snd (handleIntersection es w)) = userClickedPlay w"
  "now (snd (handleIntersection es w)) = now w"
  using hi_rel [of w es] by (simp_all add: hi_rel_def)

lemma hi_uncaught [simp]: "uncaught (snd (handleIntersection es w)) = uncaught w"
  unfolding handleIntersection_def
  by (rule forEach_invariant [where P = "\<lambda>w'. uncaught w' = uncaught w"]) simp_all

lemma mc_frame [simp]:
  "userClickedPlay (snd (mutationCallback ms w)) = userClickedPlay w"
  "uncaught (snd (mutationCallback ms w)) = uncaught w"
  "observedVideos (snd (mutationCallback ms w)) = observedVideos w"
  "now (snd (mutationCallback ms w)) = now w"
  by (simp_all add: mutationCallback_def deb_result)

lemma step_ucp:
  "userClickedPlay (step e w) =
     (case e of
        Click n \<Rightarrow> (case clicked_video w n of None \<Rightarrow> userClickedPlay w
                                             | Some v \<Rightarrow> Set_add (userClickedPlay w) v)
      | _ \<Rightarrow> userClickedPlay w)"
  by (cases e) (simp_all add: hbc_ucp ps_result)

lemma Set_add_distinct: "distinct s \<Longrightarrow> distinct (Set_add s v)"
  by (simp add: Set_add_def)

lemma step_distinct: "distinct (userClickedPlay w) \<Longrightarrow> distinct (userClickedPlay (step e w))"
  by (simp add: step_ucp Set_add_distinct split: event.splits option.splits)

lemma run_distinct: "distinct (userClickedPlay w) \<Longrightarrow> distinct (userClickedPlay (run es w))"
  by (induction es arbitrary: w) (simp_all add: step_distinct)

lemma distinct_count_one: "distinct xs \<Longrightarrow> x \<in> set xs \<Longrightarrow> count_list xs x = 1"
  by (induction xs) (auto simp: count_list_0_iff)

lemma step_uncaught:
  "uncaught (step e w) =
     (case e of
        Click n \<Rightarrow> (case clicked_video w n of None \<Rightarrow> uncaught w
                    | Some v \<Rightarrow> if playImpl (video_of w v) = PlayThrows then Suc (uncaught w) else uncaught w)
      | _ \<Rightarrow> uncaught w)"
  by (cases e) (simp_all add: dispatch_uncaught hbc_completion ps_result split: option.splits)

lemma click_pre_granted: "v \<in> set (userClickedPlay (click_pre n c v w))"
  by (simp add: Set_add_def)

lemma hbc_play_call:
  "clicked_video w n = Some v \<Longrightarrow> PlayCall v \<in> set (emitted w (snd (handleBodyClick n w)))"
proof -
  assume a: "clicked_video w n = Some v"
  let ?p = "click_pre n (the (closest (doc w) n)) v w"
  have "emits (\<lambda>_. True) w ?p"
    by (rule emits_mono [OF click_pre_emits]) simp
  then obtain cs where "calls ?p = calls w @ cs" by (auto simp: emits_def)
  then have "calls (snd (host_play v ?p)) = calls w @ cs @ [PlayCall v]" by simp
  then have "emitted w (snd (host_play v ?p)) = cs @ [PlayCall v]" by (rule emitted_eqI)
  with a show ?thesis by (simp add: hbc_Some)
qed

text \<open>
  Claim C6. A click inside a recognized container that holds a video \<open>v\<close> puts \<open>v\<close> into
  \<open>userClickedPlay\<close>: the set afterwards is the old set with \<open>v\<close> appended if it was
  absent, and the old set otherwise, so \<open>v\<close> occurs in it exactly once, and it still does
  after any further events (more clicks on the same container, a rejected or resolved
  play promise, timers). The grant precedes the play call: \<open>play()\<close> is invoked in a state
  whose set already holds \<open>v\<close>, so the grant stands even when \<open>play()\<close> throws or its
  promise is rejected.
\<close>

theorem C6_click_grants_once:
  assumes "closest (doc w) n = Some c" and "querySelector (doc w) c = Some v"
    and "distinct (userClickedPlay w)"
  shows "userClickedPlay (step (Click n) w) =
           (if Set_has (userClickedPlay w) v then userClickedPlay w else userClickedPlay w @ [v])
    \<and> count_list (userClickedPlay (step (Click n) w)) v = 1
    \<and> count_list (userClickedPlay (run es (step (Click n) w))) v = 1
    \<and> count_list (userClickedPlay (step (PlaySettled v False) (step (Click n) w))) v = 1
    \<and> handleBodyClick n w = host_play v (click_pre n c v w)
    \<and> Set_has (userClickedPlay (click_pre n c v w)) v
    \<and> PlayCall v \<in> set (emitted w (step (Click n) w))"
proof -
  have cv: "clicked_video w n = Some v" using assms(1,2) by (simp add: clicked_video_def)
  let ?w1 = "step (Click n) w"
  have u: "userClickedPlay ?w1 = Set_add (userClickedPlay w) v"
    by (simp add: hbc_ucp cv)
  have d: "distinct (userClickedPlay ?w1)" by (rule step_distinct [OF assms(3)])
  have m: "v \<in> set (userClickedPlay ?w1)" unfolding u by (simp add: Set_add_def)
  have m': "v \<in> set (userClickedPlay (run es' ?w1))" for es'
    using run_intent [of ?w1 es'] m by (auto simp: intent_step_def dest: set_mono_prefix)
  have c1: "count_list (userClickedPlay ?w1) v = 1" by (rule distinct_count_one [OF d m])
  have c2: "count_list (userClickedPlay (run es' ?w1)) v = 1" for es'
    by (rule distinct_count_one [OF run_distinct [OF d] m'])
  have c3: "count_list (userClickedPlay (step (PlaySettled v False) ?w1)) v = 1"
    using c2 [of "[PlaySettled v False]"] by (simp del: step.simps)
  have p: "PlayCall v \<in> set (emitted w ?w1)"
    using hbc_play_call [OF cv] by (simp add: emitted_def)
  show ?thesis
    using u c1 c2 [of es] c3 p hbc_video [OF assms(1,2)] click_pre_granted [of v n c w]
    by (simp add: Set_has_def Set_add_def del: step.simps run.simps)
qed

theorem C6_click_grants_once_witness:
  "closest (doc world0) 5 = Some 4 \<and> querySelector (doc world0) 4 = Some 0
   \<and> distinct (userClickedPlay world0)
   \<and> userClickedPlay (step (Click 5) world0) = [1, 0]
   \<and> count_list (userClickedPlay (run [Click 5, Click 5, PlaySettled 0 False] (step (Click 5) world0))) 0 = 1
   \<and> PlayCall 0 \<in> set (emitted world0 (step (Click 5) world0))"
proof -
  have a: "closest (doc world0) 5 = Some 4" by (simp add: world0_def page0_def)
  have b: "querySelector (doc world0) 4 = Some 0" by (simp add: world0_def page0_def)
  have c: "distinct (userClickedPlay world0)" by (simp add: world0_def)
  have d: "\<not> Set_has (userClickedPlay world0) 0" by (simp add: world0_def Set_has_def)
  have e: "userClickedPlay world0 @ [0] = [1, 0]" by (simp add: world0_def)
  from C6_click_grants_once [OF a b c, of "[Click 5, Click 5, PlaySettled 0 False]"] a b c d e
  show ?thesis by (simp del: step.simps run.simps)
qed

text \<open>
  Claim C8, as the code has it. An exception thrown by \<open>pause()\<close> is caught where the
  call is made (in \<open>pauseVideoIfAppropriate\<close> and in \<open>handleVideoPlay\<close>), logged with
  \<open>console.error\<close> and swallowed: enforcement, the play listener, a whole scan, a whole
  intersection batch and every timer callback return normally whatever the host's
  \<open>pause()\<close> does, a scan registers every video of the document even when \<open>pause()\<close>
  throws on some of them, and no event other than a click raises the count of uncaught
  exceptions. A rejected play promise is caught by the \<open>.catch\<close> reaction and logged.
\<close>

theorem C8_pause_exceptions_caught:
  "fst (pauseVideoIfAppropriate h ctx a w) = Normal
   \<and> fst (handleVideoPlay v w) = Normal
   \<and> fst (scanAndObserveAllVideos w) = Normal
   \<and> fst (handleIntersection entries w) = Normal
   \<and> fst (runCallback cb w) = Normal
   \<and> (pauseImpl (video_of w v) = PauseThrows \<and> \<not> Set_has (userClickedPlay w) v \<and> (a \<or> \<not> paused (video_of w v))
        \<longrightarrow> ConsoleError (pva_error ctx) [ErrorVal, Ref (Video v)]
              \<in> set (emitted w (snd (pauseVideoIfAppropriate (Video v) ctx a w))))
   \<and> (pauseImpl (video_of w v) = PauseThrows \<and> \<not> Set_has (userClickedPlay w) v
        \<longrightarrow> ConsoleError hvp_error [ErrorVal] \<in> set (emitted w (snd (handleVideoPlay v w))))
   \<and> set (videosInDocument (doc w)) \<subseteq> set (observedVideos (snd (scanAndObserveAllVideos w)))
   \<and> (case e of Click n \<Rightarrow> True | _ \<Rightarrow> uncaught (step e w) = uncaught w)
   \<and> playSettled v False w = (Normal, w\<lparr>calls := calls w @ [ConsoleError hbc_error [ErrorVal, Ref (Video v)]]\<rparr>)"
proof -
  have e1: "ConsoleError (pva_error ctx) [ErrorVal, Ref (Video v)]
              \<in> set (emitted w (snd (pauseVideoIfAppropriate (Video v) ctx a w)))"
    if "pauseImpl (video_of w v) = PauseThrows" "\<not> Set_has (userClickedPlay w) v" "a \<or> \<not> paused (video_of w v)"
    using that by (auto simp: pva_defs emitted_def)
  have e2: "ConsoleError hvp_error [ErrorVal] \<in> set (emitted w (snd (handleVideoPlay v w)))"
    if "pauseImpl (video_of w v) = PauseThrows" "\<not> Set_has (userClickedPlay w) v"
    using that by (auto simp: handleVideoPlay_def prim_defs emitted_def)
  have obs: "set (videosInDocument (doc w)) \<subseteq> set (observedVideos (snd (scanAndObserveAllVideos w)))"
  proof -
    have "set xs \<subseteq> set (observedVideos (snd (forEach scanAndObserve_video xs w0)))" for xs w0
    proof (induction xs arbitrary: w0)
      case Nil
      show ?case by simp
    next
      case (Cons x xs)
      let ?w1 = "snd (scanAndObserve_video x w0)"
      have "observedVideos ?w1 = Set_add (observedVideos w0) x" by (rule scv_observed)
      then have x: "x \<in> set (observedVideos ?w1)" by (simp add: Set_add_def)
      have mono: "set (observedVideos ?w1) \<subseteq> set (observedVideos (snd (forEach scanAndObserve_video xs ?w1)))"
        by (rule forEach_invariant [where P = "\<lambda>w'. set (observedVideos ?w1) \<subseteq> set (observedVideos w')"])
           (auto simp: scv_observed Set_add_def)
      have fe: "forEach scanAndObserve_video (x # xs) w0 = forEach scanAndObserve_video xs ?w1"
        by (rule forEach_Cons_Normal) simp
      from Cons.IH [of ?w1] x mono show ?case
        unfolding fe by auto
    qed
    then show ?thesis by (simp add: scan_body case_prod_beta)
  qed
  have unc: "(case e of Click n \<Rightarrow> True | _ \<Rightarrow> uncaught (step e w) = uncaught w)"
    by (cases e) (simp_all add: step_uncaught del: step.simps)
  from e1 e2 obs unc show ?thesis by (simp add: ps_result)
qed

theorem C8_pause_exceptions_caught_witness:
  "pauseImpl (video_of worldT 0) = PauseThrows \<and> \<not> Set_has (userClickedPlay worldT) 0
   \<and> fst (pauseVideoIfAppropriate (Video 0) ''Scan-InitialCheck'' False worldT) = Normal
   \<and> ConsoleError (pva_error ''Scan-InitialCheck'') [ErrorVal, Ref (Video 0)]
        \<in> set (emitted worldT (snd (pauseVideoIfAppropriate (Video 0) ''Scan-InitialCheck'' False worldT)))
   \<and> ConsoleError hvp_error [ErrorVal] \<in> set (emitted worldT (snd (handleVideoPlay 0 worldT)))
   \<and> fst (scanAndObserveAllVideos worldT) = Normal
   \<and> {0, 1} \<subseteq> set (observedVideos (snd (scanAndObserveAllVideos worldT)))
   \<and> uncaught (step (Advance 1000) worldT) = uncaught worldT"
proof -
  have a: "pauseImpl (video_of worldT 0) = PauseThrows" "\<not> paused (video_of worldT 0)"
    by (simp_all add: worldT_def pageT_def videoT_def video_of_def)
  have b: "\<not> Set_has (userClickedPlay worldT) 0" by (simp add: worldT_def Set_has_def)
  have c: "set (videosInDocument (doc worldT)) = {0, 1}" by (auto simp: worldT_def pageT_def)
  from C8_pause_exceptions_caught [of "Video 0" "''Scan-InitialCheck''" False worldT 0 "[]" InitialScan "Advance 1000"]
    a b c
  show ?thesis by (simp del: step.simps)
qed

text \<open>
  The claim as the spec words it fails for \<open>play()\<close>: \<open>handleBodyClick\<close> calls
  \<open>video.play()\<close> outside any \<open>try\<close>, and \<open>.catch\<close> handles only a rejected promise. In
  \<open>worldT\<close> the host's \<open>play()\<close> throws; the click on node 5 (inside the container of
  video 0) ends with the exception leaving the handler and reaching the page.
\<close>

theorem C8_play_throw_counterexample:
  "playImpl (video_of worldT 0) = PlayThrows
   \<and> fst (handleBodyClick 5 worldT) = Throw
   \<and> uncaught (step (Click 5) worldT) = Suc (uncaught worldT)
   \<and> [c \<leftarrow> calls (step (Click 5) worldT). \<exists>s a. c = ConsoleError s a] = []"
proof -
  have a: "clicked_video worldT 5 = Some 0" by (simp add: clicked_video_def worldT_def pageT_def)
  have b: "playImpl (video_of worldT 0) = PlayThrows" by (simp add: worldT_def pageT_def videoT_def video_of_def)
  have c: "closest (doc worldT) 5 = Some 4" "querySelector (doc worldT) 4 = Some 0"
    by (simp_all add: worldT_def pageT_def)
  have "handleBodyClick 5 worldT = host_play 0 (click_pre 5 4 0 worldT)"
    by (rule hbc_video [OF c])
  then have "calls (step (Click 5) worldT) = calls (snd (host_play 0 (click_pre 5 4 0 worldT)))"
    by simp
  also have "\<dots> =
          [ConsoleLog hbc_click [NodeRef 5], Closest 5, ConsoleLog hbc_inside [NodeRef 4], QuerySelector 4,
           ConsoleLog apl_attaching [Ref (Video 0)], AddPlayListener 0,
           ConsoleLog hbc_found [Ref (Video 0)], ConsoleLog hbc_adding [], ConsoleLog hbc_attempt [],
           PlayCall 0]"
    by (simp add: click_pre_def Let_def attachPlayListenerIfNeeded_def
          console_log_def emit_def addEventListener_play_def block_Cons_Normal block_single
          worldT_def pageT_def videoT_def video_of_def update_video_def del: block.simps)
  finally show ?thesis using a b by (simp add: hbc_completion step_uncaught del: step.simps)
qed

lemma check_msg_neq [simp]:
  "apl_attaching \<noteq> pva_checking ''Scan-InitialCheck'' False"
  "scan_new \<noteq> pva_checking ''Scan-InitialCheck'' False"
  "hvp_detected \<noteq> pva_checking ''Scan-InitialCheck'' False"
  "hi_intersecting b \<noteq> pva_checking ''Scan-InitialCheck'' False"
  "hbc_found \<noteq> pva_checking ''Scan-InitialCheck'' False"
  "hbc_success \<noteq> pva_checking ''Scan-InitialCheck'' False"
  "pva_skip_normal ''Scan-InitialCheck'' p q \<noteq> pva_checking ''Scan-InitialCheck'' False"
  "pva_success ''Scan-InitialCheck'' \<noteq> pva_checking ''Scan-InitialCheck'' False"
  "pva_checking ''Intersection-Immediate'' a \<noteq> pva_checking ''Scan-InitialCheck'' False"
  "pva_skip_assertive ''Intersection-Immediate'' \<noteq> pva_checking ''Scan-InitialCheck'' False"
  "pva_skip_normal ''Intersection-Immediate'' p q \<noteq> pva_checking ''Scan-InitialCheck'' False"
  "pva_success ''Intersection-Immediate'' \<noteq> pva_checking ''Scan-InitialCheck'' False"
  "pva_checking ''Intersection-Timeout'' a \<noteq> pva_checking ''Scan-InitialCheck'' False"
  "pva_skip_assertive ''Intersection-Timeout'' \<noteq> pva_checking ''Scan-InitialCheck'' False"
  "pva_skip_normal ''Intersection-Timeout'' p q \<noteq> pva_checking ''Scan-InitialCheck'' False"
  "pva_success ''Intersection-Timeout'' \<noteq> pva_checking ''Scan-InitialCheck'' False"
  by (simp_all add: apl_attaching_def scan_new_def hvp_detected_def hi_intersecting_def hbc_found_def
        hbc_success_def pva_checking_def pva_skip_normal_def pva_skip_assertive_def pva_success_def js_bool_def)

lemma obs_quiet_refl: "obs_quiet v w w"
  by (simp add: obs_quiet_def emits_refl)

lemma obs_quiet_trans: "obs_quiet v w w1 \<Longrightarrow> obs_quiet v w1 w2 \<Longrightarrow> obs_quiet v w w2"
  by (auto simp: obs_quiet_def intro: emits_trans)

lemma obs_quiet_once: "obs_quiet v w w' \<Longrightarrow> observed_once v w \<Longrightarrow> observed_once v w'"
  by (auto simp: obs_quiet_def observed_once_def dest: emits_count)

lemma obs_quiet_emit:
  "c \<noteq> conservative_check v \<Longrightarrow> c \<noteq> Observe v \<Longrightarrow> obs_quiet v w (w\<lparr>calls := calls w @ [c]\<rparr>)"
  by (simp add: obs_quiet_def emits_def)

lemma attach_quiet: "obs_quiet v w (snd (attachPlayListenerIfNeeded h w))"
  by (cases h) (auto simp: obs_quiet_def emits_def pva_defs conservative_check_def)

lemma pva_quiet_immediate:
  "obs_quiet v w (snd (pauseVideoIfAppropriate h ''Intersection-Immediate'' True w))"
  by (cases h) (auto simp: obs_quiet_def emits_def pva_defs conservative_check_def split: pause_behaviour.splits)

lemma pva_quiet_timeout:
  "obs_quiet v w (snd (pauseVideoIfAppropriate h ''Intersection-Timeout'' True w))"
  by (cases h) (auto simp: obs_quiet_def emits_def pva_defs conservative_check_def split: pause_behaviour.splits)

lemma hvp_quiet: "obs_quiet v w (snd (handleVideoPlay u w))"
  by (auto simp: obs_quiet_def emits_def handleVideoPlay_def prim_defs conservative_check_def
           split: pause_behaviour.splits)

lemma hie_quiet: "obs_quiet v w (snd (handleIntersection_entry e w))"
proof (cases "visible_video w e")
  case False
  then show ?thesis by (simp add: hie_skip obs_quiet_refl)
next
  case True
  let ?wl = "w\<lparr>calls := calls w @ [ConsoleLog (hi_intersecting (isIntersecting e)) [Ref (Video (target e))]]\<rparr>"
  let ?wp = "snd (pauseVideoIfAppropriate (Video (target e)) ''Intersection-Immediate'' True ?wl)"
  have a: "obs_quiet v w ?wl"
    by (rule obs_quiet_emit) (simp_all add: conservative_check_def)
  have b: "obs_quiet v ?wl ?wp" by (rule pva_quiet_immediate)
  have c: "obs_quiet v ?wp (snd (setTimeout (IntersectionTimeout (target e)) 50 ?wp))"
    by (simp add: obs_quiet_def emits_def setTimeout_def Let_def conservative_check_def)
  have "snd (handleIntersection_entry e w) = snd (setTimeout (IntersectionTimeout (target e)) 50 ?wp)"
    using True by (simp add: handleIntersection_entry_def visible_video_def console_log_def emit_def case_prod_beta Let_def)
  with obs_quiet_trans [OF obs_quiet_trans [OF a b] c] show ?thesis by simp
qed

lemma hi_quiet: "obs_quiet v w (snd (handleIntersection es w))"
  unfolding handleIntersection_def
  by (rule forEach_invariant [where P = "obs_quiet v w"])
     (auto intro: obs_quiet_refl obs_quiet_trans hie_quiet)

lemma hbc_quiet: "obs_quiet v w (snd (handleBodyClick n w))"
proof (cases "clicked_video w n")
  case None
  then show ?thesis
    by (cases "closest (doc w) n")
       (simp_all add: hbc_None click_miss_def obs_quiet_def emits_def conservative_check_def)
next
  case (Some u)
  let ?c = "the (closest (doc w) n)"
  let ?w0 = "w\<lparr>calls := calls w @ [ConsoleLog hbc_click [NodeRef n], Closest n,
                                        ConsoleLog hbc_inside [NodeRef ?c], QuerySelector ?c]\<rparr>"
  let ?w1 = "snd (attachPlayListenerIfNeeded (Video u) ?w0)"
  have a: "obs_quiet v w ?w0"
    by (simp add: obs_quiet_def emits_def conservative_check_def)
  have b: "obs_quiet v ?w0 ?w1" by (rule attach_quiet)
  have c: "obs_quiet v ?w1 (click_pre n ?c u w)"
    by (simp add: obs_quiet_def emits_def click_pre_def Let_def conservative_check_def)
  have d: "obs_quiet v (click_pre n ?c u w) (snd (host_play u (click_pre n ?c u w)))"
    by (simp add: obs_quiet_def emits_def conservative_check_def)
  from obs_quiet_trans [OF obs_quiet_trans [OF obs_quiet_trans [OF a b] c] d] Some
  show ?thesis by (simp add: hbc_Some)
qed

lemma mc_quiet: "obs_quiet v w (snd (mutationCallback ms w))"
  by (simp add: mutationCallback_def deb_result obs_quiet_def emits_def conservative_check_def)

subsection \<open>The scanner registers each video once\<close>

lemma pva_check_count:
  "count_list (emitted w (snd (pauseVideoIfAppropriate (Video u) ''Scan-InitialCheck'' False w))) (conservative_check v)
     = (if u = v then 1 else 0)"
  "count_list (emitted w (snd (pauseVideoIfAppropriate (Video u) ''Scan-InitialCheck'' False w))) (Observe v) = 0"
  by (auto simp: pva_defs emitted_def conservative_check_def split: pause_behaviour.splits)

lemma attach_check_count:
  "count_list (emitted w (snd (attachPlayListenerIfNeeded h w))) (conservative_check v) = 0"
  "count_list (emitted w (snd (attachPlayListenerIfNeeded h w))) (Observe v) = 0"
  using attach_quiet [of v w h]
  by (auto simp: obs_quiet_def emits_def emitted_def count_list_0_iff list_all_iff)

lemma check_neq [simp]:
  "ConsoleLog scan_new a \<noteq> conservative_check v"
  "Observe u \<noteq> conservative_check v"
  by (simp_all add: conservative_check_def)

lemma scv_once: "observed_once v w \<Longrightarrow> observed_once v (snd (scanAndObserve_video x w))"
  by (auto simp: observed_once_def scv_calls scv_observed Set_add_def pva_check_count attach_check_count)

lemma scan_once: "observed_once v w \<Longrightarrow> observed_once v (snd (scanAndObserveAllVideos w))"
proof -
  assume a: "observed_once v w"
  let ?w0 = "w\<lparr>calls := calls w @ [ConsoleLog scan_start [], QuerySelectorAll,
                                     ConsoleLog (scan_found (length (videosInDocument (doc w)))) []]\<rparr>"
  let ?w1 = "snd (forEach scanAndObserve_video (videosInDocument (doc w)) ?w0)"
  have "observed_once v ?w0"
    using a by (simp add: observed_once_def conservative_check_def)
  then have "observed_once v ?w1"
    by (rule forEach_invariant) (rule scv_once)
  then have "observed_once v (?w1\<lparr>calls := calls ?w1 @ [ConsoleLog scan_finished []]\<rparr>)"
    by (simp add: observed_once_def conservative_check_def)
  then show ?thesis by (simp add: scan_body case_prod_beta)
qed

lemma rc_once: "observed_once v w \<Longrightarrow> observed_once v (snd (runCallback cb w))"
proof (cases cb)
  case InitialScan
  assume a: "observed_once v w"
  then have "observed_once v (w\<lparr>calls := calls w @ [ConsoleLog init_scan_run []]\<rparr>)"
    by (simp add: observed_once_def conservative_check_def)
  from scan_once [OF this] InitialScan show ?thesis
    by (simp add: console_log_def emit_def block_Cons_Normal block_single del: block.simps)
next
  case SetupMutationObserver
  assume a: "observed_once v w"
  with SetupMutationObserver show ?thesis
    by (simp add: console_log_def emit_def block_Cons_Normal block_single odc_result
          observed_once_def conservative_check_def del: block.simps)
next
  case DebouncedScan
  assume a: "observed_once v w"
  then have "observed_once v (w\<lparr>calls := calls w @ [ConsoleLog deb_expired []]\<rparr>)"
    by (simp add: observed_once_def conservative_check_def)
  from scan_once [OF this] DebouncedScan show ?thesis
    by (simp add: console_log_def emit_def block_Cons_Normal block_single del: block.simps)
next
  case (IntersectionTimeout u)
  assume a: "observed_once v w"
  from obs_quiet_once [OF pva_quiet_timeout a] IntersectionTimeout show ?thesis by simp
qed

lemma fireTimer_once: "observed_once v w \<Longrightarrow> observed_once v (fireTimer t w)"
proof (cases "t \<in> set (timers w)")
  case False
  assume "observed_once v w"
  with False show ?thesis by (simp add: fireTimer_eq)
next
  case True
  assume "observed_once v w"
  then have "observed_once v (w\<lparr>timers := remove1 t (timers w), now := max (now w) (due t)\<rparr>)"
    by (simp add: observed_once_def)
  from rc_once [OF this] True show ?thesis by (simp add: fireTimer_eq)
qed

lemma fold_fireTimer_once: "observed_once v w \<Longrightarrow> observed_once v (fold fireTimer ts w)"
  by (induction ts arbitrary: w) (simp_all add: fireTimer_once)

lemma advance_once: "observed_once v w \<Longrightarrow> observed_once v (advance dt w)"
proof -
  assume "observed_once v w"
  then have "observed_once v (fold fireTimer (sort_key due (filter (\<lambda>t. due t \<le> now w + dt) (timers w))) w)"
    by (rule fold_fireTimer_once)
  then show ?thesis by (simp add: advance_def Let_def observed_once_def)
qed

lemma dispatch_once: "observed_once v (snd (h w)) \<Longrightarrow> observed_once v (dispatch h w)"
  by (simp add: observed_once_def)

lemma step_once: "observed_once v w \<Longrightarrow> observed_once v (step e w)"
proof (cases e)
  case (Click n)
  assume "observed_once v w"
  from obs_quiet_once [OF hbc_quiet this] Click show ?thesis by (simp add: dispatch_once)
next
  case (Intersection es)
  assume "observed_once v w"
  from obs_quiet_once [OF hi_quiet this] Intersection show ?thesis by (simp add: dispatch_once)
next
  case (Mutations ms)
  assume a: "observed_once v w"
  from obs_quiet_once [OF mc_quiet a] a Mutations show ?thesis by (simp add: dispatch_once)
next
  case (PlayEvent u)
  assume a: "observed_once v w"
  from obs_quiet_once [OF hvp_quiet a] a PlayEvent show ?thesis by (simp add: dispatch_once)
next
  case (PlaySettled u ok)
  assume a: "observed_once v w"
  with PlaySettled show ?thesis
    by (auto simp: dispatch_def ps_result observed_once_def conservative_check_def)
next
  case (Advance dt)
  assume "observed_once v w"
  with Advance show ?thesis by (simp add: advance_once)
next
  case (HostChange f)
  assume "observed_once v w"
  with HostChange show ?thesis by (simp add: observed_once_def)
qed

lemma run_once: "observed_once v w \<Longrightarrow> observed_once v (run es w)"
  by (induction es arbitrary: w) (simp_all add: step_once del: step.simps)

lemma init_once: "observed_once v (init d)"
  by (simp add: init_def observed_once_def console_log_def emit_def setTimeout_def Let_def
        block_Cons_Normal block_single conservative_check_def del: block.simps)

lemma notin_list_all: "a \<notin> set cs \<Longrightarrow> b \<notin> set cs \<Longrightarrow> list_all (\<lambda>c. c \<noteq> a \<and> c \<noteq> b) cs"
  by (auto simp: list_all_iff)

lemma scv_quiet:
  assumes "x \<noteq> v \<or> v \<in> set (observedVideos w)"
  shows "emits (\<lambda>c. c \<noteq> conservative_check v \<and> c \<noteq> Observe v) w (snd (scanAndObserve_video x w))"
proof -
  let ?w1 = "snd (attachPlayListenerIfNeeded (Video x) w)"
  let ?w2 = "?w1\<lparr>calls := calls w @ emitted w ?w1 @ [ConsoleLog scan_new [Ref (Video x)], Observe x],
                 observedVideos := Set_add (observedVideos w) x\<rparr>"
  let ?cs = "emitted w ?w1
       @ (if x \<in> set (observedVideos w) then []
          else ConsoleLog scan_new [Ref (Video x)] # Observe x
               # emitted ?w2 (snd (pauseVideoIfAppropriate (Video x) ''Scan-InitialCheck'' False ?w2)))"
  have c: "calls (snd (scanAndObserve_video x w)) = calls w @ ?cs"
    by (simp add: scv_calls)
  have z: "count_list ?cs (conservative_check v) = 0" "count_list ?cs (Observe v) = 0"
    using assms by (auto simp: attach_check_count pva_check_count)
  have n1: "conservative_check v \<notin> set ?cs" by (rule iffD1 [OF count_list_0_iff z(1)])
  have n2: "Observe v \<notin> set ?cs" by (rule iffD1 [OF count_list_0_iff z(2)])
  have "list_all (\<lambda>c. c \<noteq> conservative_check v \<and> c \<noteq> Observe v) ?cs"
    by (rule notin_list_all [OF n1 n2])
  with c show ?thesis unfolding emits_def by blast
qed

lemma scan_skips:
  assumes "v \<in> set (observedVideos w)"
  shows "emits (\<lambda>c. c \<noteq> conservative_check v \<and> c \<noteq> Observe v) w (snd (scanAndObserveAllVideos w))"
proof -
  let ?A = "\<lambda>c. c \<noteq> conservative_check v \<and> c \<noteq> Observe v"
  let ?w0 = "w\<lparr>calls := calls w @ [ConsoleLog scan_start [], QuerySelectorAll,
                                     ConsoleLog (scan_found (length (videosInDocument (doc w)))) []]\<rparr>"
  let ?w1 = "snd (forEach scanAndObserve_video (videosInDocument (doc w)) ?w0)"
  have a: "emits ?A w ?w0" by (simp add: emits_def conservative_check_def)
  have "v \<in> set (observedVideos ?w1) \<and> emits ?A ?w0 ?w1"
  proof (rule forEach_invariant [where P = "\<lambda>w'. v \<in> set (observedVideos w') \<and> emits ?A ?w0 w'"])
    show "v \<in> set (observedVideos ?w0) \<and> emits ?A ?w0 ?w0"
      using assms by (simp add: emits_refl)
  next
    fix x w'
    assume "v \<in> set (observedVideos w') \<and> emits ?A ?w0 w'"
    then show "v \<in> set (observedVideos (snd (scanAndObserve_video x w')))
               \<and> emits ?A ?w0 (snd (scanAndObserve_video x w'))"
      using scv_quiet [of x v w'] by (auto simp: scv_observed Set_add_def intro: emits_trans)
  qed
  then have b: "emits ?A ?w0 ?w1" by simp
  have c: "emits ?A ?w1 (?w1\<lparr>calls := calls ?w1 @ [ConsoleLog scan_finished []]\<rparr>)"
    by (simp add: emits_def conservative_check_def)
  from emits_trans [OF emits_trans [OF a b] c] show ?thesis
    by (simp add: scan_body case_prod_beta)
qed

text \<open>
  Claim C7. A video already in \<open>observedVideos\<close> is skipped by the scanner: for it the
  loop body is only \<open>attachPlayListenerIfNeeded\<close>, and the whole scan neither calls
  \<open>intersectionObserver.observe\<close> on it nor runs the Conservative check on it (the
  \<open>Scan-InitialCheck\<close> call of \<open>pauseVideoIfAppropriate\<close>, seen in the log by its first
  line). Over a whole session, from the script's start and through any sequence of
  events, each video is passed to \<open>observe\<close> at most once and is checked in
  Conservative mode at most once.
\<close>

theorem C7_registered_once:
  "(Set_has (observedVideos w) v \<longrightarrow>
      scanAndObserve_video v w = attachPlayListenerIfNeeded (Video v) w
      \<and> Observe v \<notin> set (emitted w (snd (scanAndObserveAllVideos w)))
      \<and> conservative_check v \<notin> set (emitted w (snd (scanAndObserveAllVideos w))))
   \<and> count_list (calls (run es (init d))) (Observe v) \<le> 1
   \<and> count_list (calls (run es (init d))) (conservative_check v) \<le> 1"
proof -
  have "observed_once v (run es (init d))"
    by (rule run_once) (rule init_once)
  then have s: "count_list (calls (run es (init d))) (Observe v) \<le> 1"
    "count_list (calls (run es (init d))) (conservative_check v) \<le> 1"
    by (auto simp: observed_once_def split: if_splits)
  have "Observe v \<notin> set (emitted w (snd (scanAndObserveAllVideos w)))
      \<and> conservative_check v \<notin> set (emitted w (snd (scanAndObserveAllVideos w)))"
    if "v \<in> set (observedVideos w)"
    using emits_notin [OF scan_skips [OF that], of "Observe v"]
          emits_notin [OF scan_skips [OF that], of "conservative_check v"] by simp
  with s scv_skip [of w v] show ?thesis by (simp add: Set_has_def)
qed

lemmas run_eval = init_def advance_def fireTimer_def dispatch_def
  scanAndObserveAllVideos_def scanAndObserve_video_def
  pauseVideoIfAppropriate_def attachPlayListenerIfNeeded_def handleVideoPlay_def
  handleIntersection_def handleIntersection_entry_def handleBodyClick_def playSettled_def
  mutationCallback_def debouncedScanAndObserve_def observeDOMChanges_def
  setTimeout_def clearTimeout_def
  emit_def console_log_def console_warn_def console_error_def host_pause_def
  host_play_def addEventListener_play_def tryCatch_def Set_has_def Set_add_def Let_def
  update_video_def video_of_def

theorem C7_registered_once_witness:
  "Set_has (observedVideos (run [Advance 1000] (init page0))) 0
   \<and> Observe 0 \<notin> set (emitted (run [Advance 1000] (init page0))
                          (snd (scanAndObserveAllVideos (run [Advance 1000] (init page0)))))
   \<and> count_list (calls (run [Advance 1000] (init page0))) (Observe 0) = 1
   \<and> count_list (calls (run [Advance 1000, Advance 500,
          Mutations [\<lparr>mtype = ChildList, addedNodes = [7], removedNodes = []\<rparr>], Advance 300] (init page0)))
        (Observe 0) \<le> 1"
proof -
  let ?w = "run [Advance 1000] (init page0)"
  have o: "observedVideos ?w = [0, 1]"
    by (simp add: run_eval page0_def video0_def)
  then have m: "Set_has (observedVideos ?w) 0" by (simp add: Set_has_def)
  have c1: "count_list (calls ?w) (Observe 0) = 1"
    by (simp add: run_eval page0_def video0_def)
  from C7_registered_once [of ?w 0 "[Advance 1000]" page0] m c1
    C7_registered_once [of ?w 0 "[Advance 1000, Advance 500,
          Mutations [\<lparr>mtype = ChildList, addedNodes = [7], removedNodes = []\<rparr>], Advance 300]" page0]
  show ?thesis by (simp del: run.simps step.simps)
qed

subsection \<open>Scan counts of the handlers\<close>

lemma emits_scans: "emits A w w' \<Longrightarrow> \<not> A QuerySelectorAll \<Longrightarrow> scans w' = scans w"
  unfolding scans_def by (rule emits_count)

lemma pva_scans [simp]: "scans (snd (pauseVideoIfAppropriate h ctx a w)) = scans w"
  by (rule emits_scans [OF pva_emits]) (simp add: is_console_def)

lemma hvp_scans [simp]: "scans (snd (handleVideoPlay v w)) = scans w"
  by (rule emits_scans [OF hvp_emits]) (simp add: is_console_def)

lemma scv_scans [simp]: "scans (snd (scanAndObserve_video v w)) = scans w"
  by (rule emits_scans [OF scv_emits]) (simp add: is_console_def)

lemma hbc_scans [simp]: "scans (snd (handleBodyClick n w)) = scans w"
  by (rule emits_scans [OF hbc_emits]) simp

lemma scans_update [simp]:
  "scans (w\<lparr>timers := t\<rparr>) = scans w"
  "scans (w\<lparr>now := n\<rparr>) = scans w"
  "scans (w\<lparr>nextTimerId := i\<rparr>) = scans w"
  "scans (w\<lparr>debounceTimer := d\<rparr>) = scans w"
  "scans (w\<lparr>playPromises := p\<rparr>) = scans w"
  "scans (w\<lparr>uncaught := k\<rparr>) = scans w"
  "scans (w\<lparr>doc := dd\<rparr>) = scans w"
  "scans (w\<lparr>mutationObserverActive := b\<rparr>) = scans w"
  "scans (w\<lparr>calls := c\<rparr>) = count_list c QuerySelectorAll"
  by (simp_all add: scans_def)

lemma scans_fold: "count_list (calls w) QuerySelectorAll = scans w"
  by (simp add: scans_def)

lemma dispatch_scans [simp]: "scans (dispatch h w) = scans (snd (h w))"
  by (simp add: scans_def)

lemma hie_scans [simp]: "scans (snd (handleIntersection_entry e w)) = scans w"
proof (cases "visible_video w e")
  case False
  then show ?thesis by (simp add: hie_skip)
next
  case True
  let ?wl = "w\<lparr>calls := calls w @ [ConsoleLog (hi_intersecting (isIntersecting e)) [Ref (Video (target e))]]\<rparr>"
  let ?wp = "snd (pauseVideoIfAppropriate (Video (target e)) ''Intersection-Immediate'' True ?wl)"
  have "snd (handleIntersection_entry e w) = snd (setTimeout (IntersectionTimeout (target e)) 50 ?wp)"
    using True by (simp add: handleIntersection_entry_def visible_video_def console_log_def emit_def case_prod_beta Let_def)
  then show ?thesis by (simp add: setTimeout_def Let_def scans_fold)
qed

lemma hi_scans [simp]: "scans (snd (handleIntersection es w)) = scans w"
  unfolding handleIntersection_def
  by (rule forEach_invariant [where P = "\<lambda>w'. scans w' = scans w"]) simp_all

lemma scan_scans [simp]: "scans (snd (scanAndObserveAllVideos w)) = Suc (scans w)"
proof -
  let ?w0 = "w\<lparr>calls := calls w @ [ConsoleLog scan_start [], QuerySelectorAll,
                                     ConsoleLog (scan_found (length (videosInDocument (doc w)))) []]\<rparr>"
  have "scans (snd (forEach scanAndObserve_video (videosInDocument (doc w)) ?w0)) = scans ?w0"
    by (rule forEach_invariant [where P = "\<lambda>w'. scans w' = scans ?w0"]) simp_all
  then show ?thesis by (simp add: scan_body case_prod_beta scans_fold)
qed

lemma rc_scans:
  "scans (snd (runCallback cb w)) =
     (if cb = InitialScan \<or> cb = DebouncedScan then Suc (scans w) else scans w)"
  by (cases cb) (simp_all add: console_log_def emit_def block_Cons_Normal block_single odc_result scans_fold del: block.simps)

subsection \<open>Pending debounce timers\<close>

lemma pending_update [simp]:
  "pending_scans (w\<lparr>calls := c\<rparr>) = pending_scans w"
  "pending_scans (w\<lparr>now := n\<rparr>) = pending_scans w"
  "pending_scans (w\<lparr>playPromises := p\<rparr>) = pending_scans w"
  "pending_scans (w\<lparr>uncaught := k\<rparr>) = pending_scans w"
  "pending_scans (w\<lparr>doc := dd\<rparr>) = pending_scans w"
  "pending_scans (w\<lparr>mutationObserverActive := b\<rparr>) = pending_scans w"
  by (simp_all add: pending_scans_def)

lemma pending_cong: "timers w' = timers w \<Longrightarrow> pending_scans w' = pending_scans w"
  by (simp add: pending_scans_def)

lemma hi_timers: "\<exists>ts. timers (snd (handleIntersection es w)) = timers w @ ts
                      \<and> list_all (\<lambda>t. callback t \<noteq> DebouncedScan \<and> callback t \<noteq> InitialScan) ts"
proof (induction es arbitrary: w)
  case Nil
  show ?case by simp
next
  case (Cons e es)
  let ?w1 = "snd (handleIntersection_entry e w)"
  from Cons.IH [of ?w1] obtain ts where
    ts: "timers (snd (handleIntersection es ?w1)) = timers ?w1 @ ts"
        "list_all (\<lambda>t. callback t \<noteq> DebouncedScan \<and> callback t \<noteq> InitialScan) ts"
    by blast
  show ?case
    by (rule exI [of _ "(if visible_video w e
                 then [\<lparr>timerId = nextTimerId w, due = now w + 50, callback = IntersectionTimeout (target e)\<rparr>]
                 else []) @ ts"])
       (simp add: hi_Cons ts hie_timers)
qed

lemma hi_pending [simp]: "pending_scans (snd (handleIntersection es w)) = pending_scans w"
proof -
  from hi_timers [of es w] obtain ts where
    "timers (snd (handleIntersection es w)) = timers w @ ts"
    "list_all (\<lambda>t. callback t \<noteq> DebouncedScan \<and> callback t \<noteq> InitialScan) ts"
    by blast
  then show ?thesis by (simp add: pending_scans_def list_all_iff)
qed

lemma hi_started [simp]: "started (snd (handleIntersection es w)) = started w"
proof -
  from hi_timers [of es w] obtain ts where
    "timers (snd (handleIntersection es w)) = timers w @ ts"
    "list_all (\<lambda>t. callback t \<noteq> DebouncedScan \<and> callback t \<noteq> InitialScan) ts"
    by blast
  then show ?thesis by (auto simp: started_def list_all_iff)
qed

lemma hi_debounceTimer [simp]: "debounceTimer (snd (handleIntersection es w)) = debounceTimer w"
  unfolding handleIntersection_def
  by (rule forEach_invariant [where P = "\<lambda>w'. debounceTimer w' = debounceTimer w"]) simp_all

lemma hi_mutationObserverActive [simp]:
  "mutationObserverActive (snd (handleIntersection es w)) = mutationObserverActive w"
  unfolding handleIntersection_def
  by (rule forEach_invariant [where P = "\<lambda>w'. mutationObserverActive w' = mutationObserverActive w"]) simp_all

lemma rc_mutationObserverActive:
  "mutationObserverActive w \<Longrightarrow> mutationObserverActive (snd (runCallback cb w))"
  by (cases cb) (simp_all add: console_log_def emit_def block_Cons_Normal block_single odc_result del: block.simps)

lemma fireTimer_scans:
  "scans (fireTimer t w) =
     (if t \<in> set (timers w) \<and> (callback t = InitialScan \<or> callback t = DebouncedScan)
      then Suc (scans w) else scans w)"
  by (simp add: fireTimer_eq rc_scans)

lemma fireTimer_pending: "pending_scans (fireTimer t w) = remove1 t (pending_scans w)"
  by (simp add: pending_scans_def filter_remove1)

lemma remove1_pending: "callback t \<noteq> DebouncedScan \<Longrightarrow> remove1 t (pending_scans w) = pending_scans w"
  by (simp add: pending_scans_def)

lemma fireTimer_now: "now (fireTimer t w) = (if t \<in> set (timers w) then max (now w) (due t) else now w)"
  by (simp add: fireTimer_eq)

lemma fireTimer_mutationObserverActive:
  "mutationObserverActive w \<Longrightarrow> mutationObserverActive (fireTimer t w)"
  by (simp add: fireTimer_eq rc_mutationObserverActive)

lemma fold_fireTimer_mutationObserverActive:
  "mutationObserverActive w \<Longrightarrow> mutationObserverActive (fold fireTimer ts w)"
  by (induction ts arbitrary: w) (simp_all add: fireTimer_mutationObserverActive)

lemma fold_fireTimer_timers: "set (timers (fold fireTimer ts w)) \<subseteq> set (timers w)"
proof (induction ts arbitrary: w)
  case Nil
  show ?case by simp
next
  case (Cons t ts)
  have "set (timers (fireTimer t w)) \<subseteq> set (timers w)"
    by (simp add: set_remove1_subset)
  with Cons.IH [of "fireTimer t w"] show ?case by auto
qed

text \<open>Firing timers none of which is a scan timer neither scans nor touches the pending scan.\<close>

lemma fold_fire_other:
  assumes "list_all (\<lambda>t. callback t \<noteq> InitialScan \<and> callback t \<noteq> DebouncedScan) ts"
  shows "scans (fold fireTimer ts w) = scans w \<and> pending_scans (fold fireTimer ts w) = pending_scans w"
  using assms
proof (induction ts arbitrary: w)
  case Nil
  show ?case by simp
next
  case (Cons t ts)
  then have t: "callback t \<noteq> InitialScan" "callback t \<noteq> DebouncedScan"
    and r: "list_all (\<lambda>t. callback t \<noteq> InitialScan \<and> callback t \<noteq> DebouncedScan) ts"
    by simp_all
  have "scans (fireTimer t w) = scans w" using t by (simp add: fireTimer_scans)
  moreover have "pending_scans (fireTimer t w) = pending_scans w"
    using t by (simp add: fireTimer_pending remove1_pending)
  ultimately show ?case using Cons.IH [OF r, of "fireTimer t w"] by simp
qed

text \<open>Firing a list of timers that holds exactly one pending debounce timer scans once.\<close>

lemma fold_fire_one:
  assumes "list_all (\<lambda>t. callback t \<noteq> InitialScan) ts"
    and "filter (\<lambda>t. callback t = DebouncedScan) ts = [d]"
    and "d \<in> set (timers w)"
  shows "scans (fold fireTimer ts w) = Suc (scans w)
       \<and> pending_scans (fold fireTimer ts w) = remove1 d (pending_scans w)"
  using assms
proof (induction ts arbitrary: w)
  case Nil
  then show ?case by simp
next
  case (Cons t ts)
  from Cons.prems(1) have t: "callback t \<noteq> InitialScan"
    and r: "list_all (\<lambda>t. callback t \<noteq> InitialScan) ts" by simp_all
  show ?case
  proof (cases "callback t = DebouncedScan")
    case True
    with Cons.prems(2) have td: "t = d" and rest: "filter (\<lambda>t. callback t = DebouncedScan) ts = []"
      by simp_all
    from rest r have "list_all (\<lambda>t. callback t \<noteq> InitialScan \<and> callback t \<noteq> DebouncedScan) ts"
      by (auto simp: list_all_iff filter_empty_conv)
    from fold_fire_other [OF this, of "fireTimer t w"] td True Cons.prems(3)
    show ?thesis by (simp add: fireTimer_scans fireTimer_pending)
  next
    case False
    with Cons.prems(2) have rest: "filter (\<lambda>t. callback t = DebouncedScan) ts = [d]" by simp
    then have "d \<in> set (filter (\<lambda>t. callback t = DebouncedScan) ts)" by simp
    then have dd: "callback d = DebouncedScan" by simp
    with False have "t \<noteq> d" by auto
    with Cons.prems(3) have "d \<in> set (timers (fireTimer t w))" by simp
    from Cons.IH [OF r rest this] False t dd
    show ?thesis by (simp add: fireTimer_scans fireTimer_pending remove1_pending)
  qed
qed

lemma run_append: "run (xs @ ys) w = run ys (run xs w)"
  by (induction xs arbitrary: w) simp_all

lemma started_cong: "timers w' = timers w \<Longrightarrow> started w' = started w"
  by (simp add: started_def)

subsection \<open>Events that do not trigger the debounce\<close>

lemma dispatch_pending [simp]:
  "pending_scans (dispatch h w) = pending_scans (snd (h w))"
  "started (dispatch h w) = started (snd (h w))"
  by (simp_all add: pending_scans_def started_def)

lemma hbc_pending [simp]:
  "pending_scans (snd (handleBodyClick n w)) = pending_scans w"
  "started (snd (handleBodyClick n w)) = started w"
  by (simp_all add: pending_scans_def started_def)

lemma hvp_pending [simp]:
  "pending_scans (snd (handleVideoPlay v w)) = pending_scans w"
  "started (snd (handleVideoPlay v w)) = started w"
  by (simp_all add: pending_scans_def started_def)

lemma step_quiet:
  assumes "\<not> triggers e" and "\<forall>dt. e \<noteq> Advance dt"
  shows "pending_scans (step e w) = pending_scans w \<and> debounceTimer (step e w) = debounceTimer w
       \<and> scans (step e w) = scans w \<and> now (step e w) = now w \<and> started (step e w) = started w
       \<and> mutationObserverActive (step e w) = mutationObserverActive w"
proof (cases e)
  case (Click n)
  then show ?thesis by simp
next
  case (Intersection es)
  then show ?thesis by simp
next
  case (Mutations ms)
  with assms(1) show ?thesis by (simp add: mutationCallback_def dispatch_def)
next
  case (PlayEvent v)
  then show ?thesis by simp
next
  case (PlaySettled v ok)
  then show ?thesis
    by (simp add: dispatch_def ps_result pending_scans_def started_def scans_def)
next
  case (Advance dt)
  with assms(2) show ?thesis by simp
next
  case (HostChange f)
  then show ?thesis by (simp add: started_def)
qed

subsection \<open>Time passing\<close>

lemma due_filter_pending:
  "filter (\<lambda>t. callback t = DebouncedScan) (sort_key due (filter (\<lambda>t. due t \<le> D) (timers w)))
     = sort_key due (filter (\<lambda>t. due t \<le> D) (pending_scans w))"
  by (simp add: filter_sort pending_scans_def conj_commute)

lemma advance_pending:
  assumes "started w" and "length (pending_scans w) \<le> 1"
  shows "pending_scans (advance dt w) = filter (\<lambda>t. now w + dt < due t) (pending_scans w)
       \<and> scans (advance dt w) = scans w + length (filter (\<lambda>t. due t \<le> now w + dt) (pending_scans w))"
proof -
  let ?D = "now w + dt"
  let ?ts = "sort_key due (filter (\<lambda>t. due t \<le> ?D) (timers w))"
  have noinit: "list_all (\<lambda>t. callback t \<noteq> InitialScan) ?ts"
    using assms(1) by (auto simp: started_def list_all_iff)
  have adv: "pending_scans (advance dt w) = pending_scans (fold fireTimer ?ts w)"
    "scans (advance dt w) = scans (fold fireTimer ?ts w)"
    by (simp_all add: advance_def Let_def)
  consider (none) "filter (\<lambda>t. due t \<le> ?D) (pending_scans w) = []"
    | (one) d where "pending_scans w = [d]" "due d \<le> ?D"
  proof (cases "pending_scans w")
    case Nil
    then show ?thesis using that(1) by simp
  next
    case (Cons d ds)
    with assms(2) have "pending_scans w = [d]" by simp
    then show ?thesis using that by (cases "due d \<le> ?D") simp_all
  qed
  then show ?thesis
  proof cases
    case none
    then have "filter (\<lambda>t. callback t = DebouncedScan) ?ts = []"
      by (simp add: due_filter_pending)
    with noinit have "list_all (\<lambda>t. callback t \<noteq> InitialScan \<and> callback t \<noteq> DebouncedScan) ?ts"
      by (auto simp: list_all_iff filter_empty_conv)
    from fold_fire_other [OF this, of w] none show ?thesis
      by (auto simp: adv filter_empty_conv filter_id_conv not_le)
  next
    case (one d)
    then have f: "filter (\<lambda>t. callback t = DebouncedScan) ?ts = [d]"
      by (simp add: due_filter_pending)
    have "d \<in> set (pending_scans w)" using one by simp
    then have "d \<in> set (timers w)" by (simp add: pending_scans_def)
    from fold_fire_one [OF noinit f this] one show ?thesis
      by (simp add: adv)
  qed
qed

lemma advance_started: "started w \<Longrightarrow> started (advance dt w)"
proof -
  assume "started w"
  moreover have "set (timers (advance dt w)) \<subseteq> set (timers w)"
    using fold_fireTimer_timers [of "sort_key due (filter (\<lambda>t. due t \<le> now w + dt) (timers w))" w]
    by (simp add: advance_def Let_def)
  ultimately show ?thesis by (auto simp: started_def list_all_iff)
qed

lemma advance_mutationObserverActive: "mutationObserverActive w \<Longrightarrow> mutationObserverActive (advance dt w)"
  by (simp add: advance_def Let_def fold_fireTimer_mutationObserverActive)

subsection \<open>A run of events without a trigger\<close>

lemma filter_later:
  "filter (\<lambda>t. a + b < due t) (filter (\<lambda>t. (a::nat) < due t) P) = filter (\<lambda>t. a + b < due t) P"
  by (induction P) auto

lemma count_split:
  "length (filter (\<lambda>t. due t \<le> (a::nat)) P)
     + length (filter (\<lambda>t. due t \<le> a + b) (filter (\<lambda>t. a < due t) P))
   = length (filter (\<lambda>t. due t \<le> a + b) P)"
  by (induction P) auto

lemma run_quiet:
  assumes "started w" and "length (pending_scans w) \<le> 1" and "fresh w"
    and "list_all (\<lambda>e. \<not> triggers e) seg"
  shows "pending_scans (run seg w) = filter (\<lambda>t. now w + elapsed seg < due t) (pending_scans w)
       \<and> scans (run seg w) = scans w + length (filter (\<lambda>t. due t \<le> now w + elapsed seg) (pending_scans w))
       \<and> now (run seg w) = now w + elapsed seg
       \<and> started (run seg w)
       \<and> debounceTimer (run seg w) = debounceTimer w
       \<and> (mutationObserverActive w \<longrightarrow> mutationObserverActive (run seg w))"
  using assms
proof (induction seg arbitrary: w)
  case Nil
  then show ?case
    by (auto simp: fresh_def list_all_iff filter_id_conv filter_empty_conv not_le)
next
  case (Cons e seg)
  from Cons.prems(4) have q: "\<not> triggers e" and rest: "list_all (\<lambda>e. \<not> triggers e) seg" by simp_all
  show ?case
  proof (cases "\<exists>dt. e = Advance dt")
    case True
    then obtain dt where e: "e = Advance dt" by blast
    let ?w1 = "advance dt w"
    from advance_pending [OF Cons.prems(1,2), of dt]
    have p1: "pending_scans ?w1 = filter (\<lambda>t. now w + dt < due t) (pending_scans w)"
      and s1: "scans ?w1 = scans w + length (filter (\<lambda>t. due t \<le> now w + dt) (pending_scans w))"
      by simp_all
    have st1: "started ?w1" by (rule advance_started [OF Cons.prems(1)])
    have l1: "length (pending_scans ?w1) \<le> 1"
      unfolding p1 using Cons.prems(2) by (rule order_trans [OF length_filter_le])
    have f1: "fresh ?w1" by (simp add: fresh_def p1 list_all_iff)
    from Cons.IH [OF st1 l1 f1 rest]
    have ih: "pending_scans (run seg ?w1) = filter (\<lambda>t. now ?w1 + elapsed seg < due t) (pending_scans ?w1)"
      "scans (run seg ?w1) = scans ?w1 + length (filter (\<lambda>t. due t \<le> now ?w1 + elapsed seg) (pending_scans ?w1))"
      "now (run seg ?w1) = now ?w1 + elapsed seg"
      "started (run seg ?w1)"
      "debounceTimer (run seg ?w1) = debounceTimer ?w1"
      "mutationObserverActive ?w1 \<longrightarrow> mutationObserverActive (run seg ?w1)"
      by simp_all
    have pf: "filter (\<lambda>t. now w + dt + elapsed seg < due t) (filter (\<lambda>t. now w + dt < due t) (pending_scans w))
                = filter (\<lambda>t. now w + dt + elapsed seg < due t) (pending_scans w)"
      by (rule filter_later)
    show ?thesis
      using ih count_split [of "now w + dt" "pending_scans w" "elapsed seg"]
        advance_mutationObserverActive [of w dt]
      by (simp add: e p1 s1 add.assoc) (rule filter_cong, auto)
  next
    case False
    then have na: "\<forall>dt. e \<noteq> Advance dt" by simp
    let ?w1 = "step e w"
    from step_quiet [OF q na, of w]
    have sq: "pending_scans ?w1 = pending_scans w" "debounceTimer ?w1 = debounceTimer w"
      "scans ?w1 = scans w" "now ?w1 = now w" "started ?w1 = started w"
      "mutationObserverActive ?w1 = mutationObserverActive w"
      by simp_all
    have st1: "started ?w1" using Cons.prems(1) by (simp only: sq)
    have l1: "length (pending_scans ?w1) \<le> 1" using Cons.prems(2) by (simp only: sq)
    have f1: "fresh ?w1" using Cons.prems(3) by (simp only: fresh_def sq)
    have el: "elapsed (e # seg) = elapsed seg" using na by (cases e) simp_all
    from Cons.IH [OF st1 l1 f1 rest] show ?thesis
      unfolding run.simps el sq by blast
  qed
qed

subsection \<open>A trigger\<close>

lemma trigger:
  assumes "mutationObserverActive w" and "changed ms" and "deb_inv w"
  shows "pending_scans (step (Mutations ms) w)
           = [\<lparr>timerId = nextTimerId w, due = now w + 300, callback = DebouncedScan\<rparr>]
       \<and> debounceTimer (step (Mutations ms) w) = Some (nextTimerId w)
       \<and> scans (step (Mutations ms) w) = scans w
       \<and> now (step (Mutations ms) w) = now w
       \<and> (started w \<longrightarrow> started (step (Mutations ms) w))
       \<and> mutationObserverActive (step (Mutations ms) w)"
proof -
  have gone: "filter (\<lambda>t. callback t = DebouncedScan)
               (case debounceTimer w of None \<Rightarrow> timers w
                | Some i \<Rightarrow> filter (\<lambda>x. timerId x \<noteq> i) (timers w)) = []"
  proof (cases "debounceTimer w")
    case None
    with assms(3) show ?thesis
      by (auto simp: deb_inv_def pending_scans_def list_all_iff filter_empty_conv)
  next
    case (Some i)
    with assms(3) show ?thesis
      by (auto simp: deb_inv_def pending_scans_def list_all_iff filter_empty_conv)
  qed
  have st: "list_all (\<lambda>t. callback t \<noteq> InitialScan)
             (case debounceTimer w of None \<Rightarrow> timers w
              | Some i \<Rightarrow> filter (\<lambda>x. timerId x \<noteq> i) (timers w))"
    if "started w"
    using that by (cases "debounceTimer w") (auto simp: started_def list_all_iff)
  show ?thesis
    using assms(1,2) gone st
    by (simp add: mutationCallback_def deb_result dispatch_def pending_scans_def started_def scans_def)
qed

subsection \<open>At most one debounce timer is pending\<close>

lemma fold_fireTimer_pending:
  "length (pending_scans (fold fireTimer ts w)) \<le> length (pending_scans w)
   \<and> set (pending_scans (fold fireTimer ts w)) \<subseteq> set (pending_scans w)"
proof (induction ts arbitrary: w)
  case Nil
  show ?case by simp
next
  case (Cons t ts)
  have "length (pending_scans (fireTimer t w)) \<le> length (pending_scans w)"
    by (simp add: fireTimer_pending length_remove1)
  moreover have "set (pending_scans (fireTimer t w)) \<subseteq> set (pending_scans w)"
    by (simp add: fireTimer_pending set_remove1_subset)
  ultimately show ?case using Cons.IH [of "fireTimer t w"] by auto
qed

lemma advance_deb_inv: "deb_inv w \<Longrightarrow> deb_inv (advance dt w)"
proof -
  assume a: "deb_inv w"
  let ?ts = "sort_key due (filter (\<lambda>t. due t \<le> now w + dt) (timers w))"
  have p: "pending_scans (advance dt w) = pending_scans (fold fireTimer ?ts w)"
    by (simp add: advance_def Let_def)
  from fold_fireTimer_pending [of ?ts w] a show ?thesis
    unfolding deb_inv_def p list_all_iff by auto
qed

lemma step_deb_inv: "deb_inv w \<Longrightarrow> deb_inv (step e w)"
proof -
  assume a: "deb_inv w"
  show ?thesis
  proof (cases "\<exists>dt. e = Advance dt")
    case True
    with a show ?thesis by (auto simp: advance_deb_inv)
  next
    case False
    then have na: "\<forall>dt. e \<noteq> Advance dt" by simp
    show ?thesis
    proof (cases "triggers e")
      case False
      from step_quiet [OF False na, of w] a show ?thesis by (simp add: deb_inv_def)
    next
      case True
      then obtain ms where e: "e = Mutations ms" and c: "changed ms" by (cases e) simp_all
      show ?thesis
      proof (cases "mutationObserverActive w")
        case True
        from trigger [OF True c a] show ?thesis by (simp add: deb_inv_def e del: step.simps)
      next
        case False
        with a e show ?thesis by simp
      qed
    qed
  qed
qed

lemma run_deb_inv: "deb_inv w \<Longrightarrow> deb_inv (run es w)"
  by (induction es arbitrary: w) (simp_all add: step_deb_inv del: step.simps)

lemma init_timers:
  "timers (init d) = [\<lparr>timerId = 1, due = 1000, callback = InitialScan\<rparr>,
                      \<lparr>timerId = 2, due = 1500, callback = SetupMutationObserver\<rparr>]"
  "debounceTimer (init d) = None" "now (init d) = 0" "mutationObserverActive (init d) = False"
  by (simp_all add: init_def console_log_def emit_def setTimeout_def Let_def
        block_Cons_Normal block_single del: block.simps)

lemma init_deb_inv: "deb_inv (init d)"
  by (simp add: deb_inv_def pending_scans_def init_timers)

subsection \<open>A burst of triggers\<close>

lemma burst_scans:
  assumes "deb_inv w" and "started w" and "mutationObserverActive w"
    and "bs \<noteq> []"
    and "list_all (\<lambda>(ms, seg). changed ms \<and> list_all (\<lambda>e. \<not> triggers e) seg) bs"
    and "list_all (\<lambda>(ms, seg). elapsed seg < 300) (butlast bs)"
  shows "scans (run (burst bs) w) = scans w + (if 300 \<le> elapsed (snd (last bs)) then 1 else 0)
       \<and> length (pending_scans (run (burst bs) w)) = (if 300 \<le> elapsed (snd (last bs)) then 0 else 1)"
  using assms
proof (induction bs arbitrary: w)
  case Nil
  then show ?case by simp
next
  case (Cons b bs)
  obtain ms seg where b: "b = (ms, seg)" by (cases b)
  from Cons.prems(5) b have c: "changed ms" and q: "list_all (\<lambda>e. \<not> triggers e) seg"
    and rest: "list_all (\<lambda>(ms, seg). changed ms \<and> list_all (\<lambda>e. \<not> triggers e) seg) bs"
    by simp_all
  let ?d = "\<lparr>timerId = nextTimerId w, due = now w + 300, callback = DebouncedScan\<rparr>"
  let ?w1 = "step (Mutations ms) w"
  let ?w2 = "run seg ?w1"
  from trigger [OF Cons.prems(3) c Cons.prems(1)] Cons.prems(2)
  have t: "pending_scans ?w1 = [?d]" "debounceTimer ?w1 = Some (nextTimerId w)"
    "scans ?w1 = scans w" "now ?w1 = now w" "started ?w1" "mutationObserverActive ?w1"
    by simp_all
  have l1: "length (pending_scans ?w1) \<le> 1" by (simp only: t) simp
  have f1: "fresh ?w1" by (simp only: fresh_def t) simp
  from run_quiet [OF t(5) l1 f1 q]
  have r: "pending_scans ?w2 = filter (\<lambda>t. now ?w1 + elapsed seg < due t) (pending_scans ?w1)"
    "scans ?w2 = scans ?w1 + length (filter (\<lambda>t. due t \<le> now ?w1 + elapsed seg) (pending_scans ?w1))"
    "started ?w2" "debounceTimer ?w2 = debounceTimer ?w1" "mutationObserverActive ?w2"
    using t(6) by simp_all
  have p2: "pending_scans ?w2 = (if elapsed seg < 300 then [?d] else [])"
    unfolding r(1) t(1) t(4) by simp
  have s2: "scans ?w2 = scans w + (if 300 \<le> elapsed seg then 1 else 0)"
    unfolding r(2) t(1) t(3) t(4) by simp
  have split: "run (burst (b # bs)) w = run (burst bs) ?w2"
    by (simp add: b run_append del: step.simps)
  show ?case
  proof (cases bs)
    case Nil
    with p2 s2 b show ?thesis by (simp del: step.simps)
  next
    case (Cons b' bs')
    with Cons.prems(6) b have el: "elapsed seg < 300"
      and more: "list_all (\<lambda>(ms, seg). elapsed seg < 300) (butlast bs)"
      by simp_all
    have ne: "bs \<noteq> []" using Cons by simp
    have d2: "deb_inv ?w2"
      unfolding deb_inv_def p2 r(4) t(2) using el by simp
    from Cons.IH [OF d2 r(3) r(5) ne rest more] s2 el ne
    show ?thesis unfolding split by simp
  qed
qed

text \<open>
  Claim C4. Take a world in which the initial scan has run, the MutationObserver is set
  up and at most the timer named by \<open>debounceTimer\<close> is a pending debounce timer. Let a
  burst be N >= 1 qualifying mutation notifications, each followed by events that do not
  trigger the debounce (clicks, intersections, play events, notifications without added
  or removed nodes, changes by the page, time passing), with less than 300 ms passing
  between one notification and the next. Then the burst causes exactly one scan, and it
  happens only once 300 ms have passed after the last notification: before that no scan
  has run and exactly one debounce timer is pending, afterwards one scan has run and none
  is pending. Through any sequence of events at most one debounce timer is pending.
\<close>

theorem C4_debounce_single_scan:
  assumes "deb_inv w" and "started w" and "mutationObserverActive w"
    and "bs \<noteq> []"
    and "list_all (\<lambda>(ms, seg). changed ms \<and> list_all (\<lambda>e. \<not> triggers e) seg) bs"
    and "list_all (\<lambda>(ms, seg). elapsed seg < 300) (butlast bs)"
  shows "scans (run (burst bs) w) = scans w + (if 300 \<le> elapsed (snd (last bs)) then 1 else 0)
       \<and> length (pending_scans (run (burst bs) w)) = (if 300 \<le> elapsed (snd (last bs)) then 0 else 1)
       \<and> length (pending_scans (run es w)) \<le> 1
       \<and> length (pending_scans (run es (init d))) \<le> 1"
proof -
  have "deb_inv (run es w)" by (rule run_deb_inv [OF assms(1)])
  moreover have "deb_inv (run es (init d))" by (rule run_deb_inv [OF init_deb_inv])
  ultimately show ?thesis
    using burst_scans [OF assms] by (simp add: deb_inv_def)
qed

lemma loaded_facts:
  "timers loaded = []" "debounceTimer loaded = None" "mutationObserverActive loaded" "now loaded = 1500"
  by (simp_all add: loaded_def run_eval page0_def video0_def)

theorem C4_debounce_single_scan_witness:
  "deb_inv loaded \<and> started loaded \<and> mutationObserverActive loaded
   \<and> list_all (\<lambda>(ms, seg). changed ms \<and> list_all (\<lambda>e. \<not> triggers e) seg)
        [(added, [Advance 100]), (added, [Click 5, Advance 299]), (added, [Advance 200, PlayEvent 0, Advance 100])]
   \<and> list_all (\<lambda>(ms, seg). elapsed seg < 300) [(added, [Advance 100]), (added, [Click 5, Advance 299])]
   \<and> scans (run (burst [(added, [Advance 100]), (added, [Click 5, Advance 299]),
                          (added, [Advance 200, PlayEvent 0, Advance 100])]) loaded) = scans loaded + 1
   \<and> length (pending_scans (run (burst [(added, [Advance 100]), (added, [Click 5, Advance 299]),
                          (added, [Advance 200, PlayEvent 0, Advance 100])]) loaded)) = 0
   \<and> scans (run (burst [(added, [Advance 100]), (added, [Advance 299])]) loaded) = scans loaded
   \<and> length (pending_scans (run (burst [(added, [Advance 100]), (added, [Advance 299])]) loaded)) = 1"
proof -
  have a: "deb_inv loaded" by (simp add: deb_inv_def pending_scans_def loaded_facts)
  have b: "started loaded" by (simp add: started_def loaded_facts)
  have c: "mutationObserverActive loaded" by (rule loaded_facts)
  have ch: "changed added" by (simp add: added_def)
  let ?b1 = "[(added, [Advance 100]), (added, [Click 5, Advance 299]),
              (added, [Advance 200, PlayEvent 0, Advance 100])]"
  let ?b2 = "[(added, [Advance 100]), (added, [Advance 299])]"
  have h1: "list_all (\<lambda>(ms, seg). changed ms \<and> list_all (\<lambda>e. \<not> triggers e) seg) ?b1"
    and h1': "list_all (\<lambda>(ms, seg). elapsed seg < 300) (butlast ?b1)"
    and h2: "list_all (\<lambda>(ms, seg). changed ms \<and> list_all (\<lambda>e. \<not> triggers e) seg) ?b2"
    and h2': "list_all (\<lambda>(ms, seg). elapsed seg < 300) (butlast ?b2)"
    by (simp_all add: ch)
  have n1: "?b1 \<noteq> []" and n2: "?b2 \<noteq> []" by simp_all
  from C4_debounce_single_scan [OF a b c n1 h1 h1', of "[]" page0]
       C4_debounce_single_scan [OF a b c n2 h2 h2', of "[]" page0] a b c h1 h1'
  show ?thesis by (simp del: run.simps step.simps burst.simps)
qed

end
